theory Spec2Isabelle
  imports Main
begin

unbundle bit_operations_syntax

section \<open>The regular-expression ACL data of Squid (src/acl/RegexData.cc)\<close>

text \<open>
  The file keeps an ordered list of compiled patterns (\<open>ACLRegexData::data\<close>), fills it
  from configuration tokens (\<open>parse\<close>, through \<open>compileOptimisedREs\<close> and, when that
  fails, \<open>compileUnoptimisedREs\<close>), matches words against it (\<open>match\<close>) and writes it
  back as configuration tokens (\<open>dump\<close>).

  What the file uses but does not define is a parameter of the model:
  \<^item> \<open>rc\<close>, the engine's \<open>regcomp\<close>: the pattern text and the flags give a compiled
    handle, or \<open>None\<close> for a non-zero error code;
  \<^item> \<open>rx\<close>, the engine's \<open>regexec\<close> as \<open>RegexPattern::match\<close> calls it: \<open>True\<close> when
    the handle matches the word;
  \<^item> \<open>B\<close>, the value of \<open>BUFSIZ\<close> of the platform's \<open>stdio.h\<close>;
  \<^item> \<open>junk\<close>, the bytes the uninitialised array \<open>largeRE\<close> holds on entry.
  C strings are the \<open>string\<close> of their bytes before the terminator; lengths and indices
  are natural numbers (the source's \<open>int\<close> values stay far below the 32-bit limit).
\<close>

subsection \<open>Constants, patterns and diagnostics\<close>

text \<open>The flag bits of \<open>regex.h\<close> (the values of glibc and of Squid's own GnuRegex.h).\<close>

definition REG_EXTENDED :: int where
  "REG_EXTENDED = 1"

definition REG_ICASE :: int where
  "REG_ICASE = 2"

definition REG_NOSUB :: int where
  "REG_NOSUB = 8"

definition NUL :: char where
  "NUL = CHR 0x00"

text \<open>
  \<open>RegexPattern\<close> (base/RegexPattern.h): the flags, the source text that \<open>c_str()\<close>
  returns, and the compiled \<open>regex_t\<close>.
\<close>

record 'r RegexPattern =
  flags :: int
  pattern :: string
  regex :: 'r

text \<open>
  The messages the file sends to the log at the levels critical and important, each with
  the texts it quotes. (The messages of levels 2 and 3 are left out; the warning about
  more than 100 expressions is kept although its level depends on a global.)
\<close>

datatype diag =
    OnlyWildcards string
  | UnnecessaryWildcards string string
  | InvalidRegex string
  | TooManyREs
  | SkippingCompileFailed string
  | SkippingTooLarge string
  | OptimisationFailed

subsection \<open>match and dump\<close>

text \<open>\<open>RegexPattern::match\<close> is \<open>regexec(&regex, str, 0, NULL, 0) == 0\<close>.\<close>

definition RegexPattern_match :: "('r \<Rightarrow> string \<Rightarrow> bool) \<Rightarrow> 'r RegexPattern \<Rightarrow> string \<Rightarrow> bool" where
  "RegexPattern_match rx i word = rx (regex i) word"

text \<open>
  The loop of \<open>ACLRegexData::match\<close> over \<open>data\<close>. Calling the engine is an effect:
  the result carries, next to the return value, the handles the engine was asked about,
  in the order of the calls (\<open>asked\<close> holds the calls made so far).
\<close>

fun match_walk ::
  "('r \<Rightarrow> string \<Rightarrow> bool) \<Rightarrow> 'r list \<Rightarrow> 'r RegexPattern list \<Rightarrow> string \<Rightarrow> bool \<times> 'r list" where
  "match_walk rx asked [] word = (False, asked)"
| "match_walk rx asked (i # rest) word =
     (if RegexPattern_match rx i word then (True, asked @ [regex i])
      else match_walk rx (asked @ [regex i]) rest word)"

text \<open>\<open>ACLRegexData::match\<close>; a null \<open>word\<close> is \<open>None\<close>.\<close>

definition match ::
  "('r \<Rightarrow> string \<Rightarrow> bool) \<Rightarrow> 'r RegexPattern list \<Rightarrow> string option \<Rightarrow> bool \<times> 'r list" where
  "match rx data word =
     (case word of
        None \<Rightarrow> (False, [])
      | Some w \<Rightarrow> match_walk rx [] data w)"

text \<open>The loop of \<open>ACLRegexData::dump\<close>: \<open>cflags\<close> is the local \<open>flags\<close>, \<open>sl\<close> the output.\<close>

fun dump_walk :: "int \<Rightarrow> string list \<Rightarrow> 'r RegexPattern list \<Rightarrow> string list" where
  "dump_walk cflags sl [] = sl"
| "dump_walk cflags sl (i # rest) =
     (if flags i \<noteq> cflags
      then dump_walk (flags i)
             ((sl @ [if (flags i AND REG_ICASE) \<noteq> 0 then ''-i'' else ''+i'']) @ [pattern i]) rest
      else dump_walk cflags (sl @ [pattern i]) rest)"

definition dump :: "'r RegexPattern list \<Rightarrow> string list" where
  "dump data = dump_walk (REG_EXTENDED OR REG_NOSUB) [] data"

subsection \<open>removeUnnecessaryWildcards\<close>

text \<open>The \<open>while\<close> loop: as long as the text starts with a dot and a star, skip both.\<close>

fun skip_wildcards :: "string \<Rightarrow> string" where
  "skip_wildcards (c1 # c2 # t) =
     (if c1 = CHR ''.'' \<and> c2 = CHR ''*'' then skip_wildcards t else c1 # c2 # t)"
| "skip_wildcards t = t"

text \<open>
  The result and the warnings. \<open>t\<close> points into \<open>orig\<close>, so the pointers differ exactly
  when the texts do.
\<close>

definition removeUnnecessaryWildcards :: "string \<Rightarrow> string \<times> diag list" where
  "removeUnnecessaryWildcards orig =
     (let t = (if take 3 orig = ''^.*'' then drop 3 orig else orig);
          t = skip_wildcards t
      in if t = [] then (''.*'', [OnlyWildcards orig])
         else if t \<noteq> orig then (t, [UnnecessaryWildcards orig t])
         else (t, []))"

subsection \<open>compileRE\<close>

text \<open>
  The result is the return value, the list \<open>curlist\<close> as the call leaves it, and the
  messages. A null \<open>RE\<close> is \<open>None\<close>.
\<close>

definition compileRE ::
  "(string \<Rightarrow> int \<Rightarrow> 'r option) \<Rightarrow> 'r RegexPattern list \<Rightarrow> string option \<Rightarrow> int
     \<Rightarrow> bool \<times> 'r RegexPattern list \<times> diag list" where
  "compileRE rc curlist RE cflags =
     (case RE of
        None \<Rightarrow> (curlist = [], curlist, [])
      | Some re \<Rightarrow>
          if re = [] then (curlist = [], curlist, [])
          else (case rc re cflags of
                  None \<Rightarrow> (False, curlist, [InvalidRegex re])
                | Some compiled \<Rightarrow>
                    (True, curlist @ [\<lparr>flags = cflags, pattern = re, regex = compiled\<rparr>], [])))"

subsection \<open>compileOptimisedREs\<close>

text \<open>
  The array \<open>largeRE\<close> is a list of \<open>B\<close> bytes. A write through an index is checked:
  outside the array it is the fault \<open>None\<close>. Reading the array as a C string needs a
  terminator inside it.
\<close>

definition poke :: "char list \<Rightarrow> nat \<Rightarrow> char \<Rightarrow> char list option" where
  "poke buf n c = (if n < length buf then Some (buf[n := c]) else None)"

definition c_str :: "char list \<Rightarrow> string option" where
  "c_str buf = (if NUL \<in> set buf then Some (takeWhile (\<lambda>c. c \<noteq> NUL) buf) else None)"

text \<open>
  \<open>SBuf::copy(dest, n)\<close> (sbuf/SBuf.cc) copies the first \<open>min(n, length())\<close> bytes to
  \<open>dest\<close>, here \<open>buf + off\<close>, with no terminator. \<open>SBuf::c_str()\<close> yields the bytes up to
  the first terminator.
\<close>

definition SBuf_copy :: "string \<Rightarrow> char list \<Rightarrow> nat \<Rightarrow> nat \<Rightarrow> char list option" where
  "SBuf_copy i buf off n =
     (let toexport = min n (length i)
      in if off + toexport \<le> length buf
         then Some (take off buf @ take toexport i @ drop (off + toexport) buf)
         else None)"

definition SBuf_c_str :: "string \<Rightarrow> string" where
  "SBuf_c_str i = takeWhile (\<lambda>c. c \<noteq> NUL) i"

text \<open>The locals of the function that the loop changes.\<close>

record 'r opt_state =
  newlist :: "'r RegexPattern list"
  numREs :: nat
  cur_flags :: int
  largeREindex :: nat
  largeRE :: "char list"

text \<open>
  What one statement or one round of the loop leads to: a write outside the array,
  \<open>return 0\<close> (with the messages of the failed compile), or the next statement.
\<close>

datatype 'a outcome = OutOfBounds | Return0 "diag list" | Next 'a

definition obind :: "'a outcome \<Rightarrow> ('a \<Rightarrow> 'b outcome) \<Rightarrow> 'b outcome" where
  "obind m f = (case m of OutOfBounds \<Rightarrow> OutOfBounds | Return0 lg \<Rightarrow> Return0 lg | Next a \<Rightarrow> f a)"

text \<open>\<open>if (!compileRE(newlist, largeRE, flags)) return 0;\<close>\<close>

definition compile_largeRE ::
  "(string \<Rightarrow> int \<Rightarrow> 'r option) \<Rightarrow> 'r opt_state \<Rightarrow> 'r opt_state outcome" where
  "compile_largeRE rc st =
     (case c_str (largeRE st) of
        None \<Rightarrow> OutOfBounds
      | Some re \<Rightarrow>
          (case compileRE rc (newlist st) (Some re) (cur_flags st) of
             (ok, nl, lg) \<Rightarrow> if ok then Next (st\<lparr>newlist := nl\<rparr>) else Return0 lg))"

text \<open>\<open>largeRE[largeREindex=0] = '\0';\<close>\<close>

definition reset_largeRE :: "'r opt_state \<Rightarrow> 'r opt_state outcome" where
  "reset_largeRE st =
     (case poke (largeRE st) 0 NUL of
        None \<Rightarrow> OutOfBounds
      | Some buf \<Rightarrow> Next (st\<lparr>largeREindex := 0, largeRE := buf\<rparr>))"

text \<open>\<open>largeRE[largeREindex] = c;\<close> and \<open>++largeREindex;\<close>\<close>

definition put_char :: "char \<Rightarrow> 'r opt_state \<Rightarrow> 'r opt_state outcome" where
  "put_char c st =
     (case poke (largeRE st) (largeREindex st) c of
        None \<Rightarrow> OutOfBounds
      | Some buf \<Rightarrow> Next (st\<lparr>largeRE := buf\<rparr>))"

definition incr_index :: "'r opt_state \<Rightarrow> 'r opt_state" where
  "incr_index st = st\<lparr>largeREindex := largeREindex st + 1\<rparr>"

text \<open>
  \<open>i.copy(largeRE+largeREindex, BUFSIZ-largeREindex);\<close> and
  \<open>largeREindex += i.length();\<close>
\<close>

definition copy_token :: "nat \<Rightarrow> string \<Rightarrow> 'r opt_state \<Rightarrow> 'r opt_state outcome" where
  "copy_token B i st =
     (case SBuf_copy i (largeRE st) (largeREindex st) (B - largeREindex st) of
        None \<Rightarrow> OutOfBounds
      | Some buf \<Rightarrow> Next (st\<lparr>largeRE := buf, largeREindex := largeREindex st + length i\<rparr>))"

text \<open>
  One round of the loop \<open>for (SBuf i : sl)\<close>. In the last branch the \<open>continue\<close> of a
  range-based \<open>for\<close> goes on with the next token: the round ends with \<open>i\<close> in no buffer.
\<close>

definition loop_body ::
  "nat \<Rightarrow> (string \<Rightarrow> int \<Rightarrow> 'r option) \<Rightarrow> 'r opt_state \<Rightarrow> string \<Rightarrow> 'r opt_state outcome" where
  "loop_body B rc st i =
     (if i = ''-i'' then
        (if (cur_flags st AND REG_ICASE) \<noteq> 0 then Next st
         else obind (compile_largeRE rc st) (\<lambda>st.
              reset_largeRE (st\<lparr>cur_flags := cur_flags st OR REG_ICASE\<rparr>)))
      else if i = ''+i'' then
        (if (cur_flags st AND REG_ICASE) = 0 then Next st
         else obind (compile_largeRE rc st) (\<lambda>st.
              reset_largeRE (st\<lparr>cur_flags := cur_flags st AND NOT REG_ICASE\<rparr>)))
      else if length i + largeREindex st + 3 < B - 1 then
        obind (if 0 < largeREindex st
               then obind (put_char (CHR ''|'') st) (\<lambda>st. Next (incr_index st))
               else Next st) (\<lambda>st.
        obind (put_char (CHR ''('') st) (\<lambda>st.
        obind (copy_token B i (incr_index st)) (\<lambda>st.
        obind (put_char (CHR '')'') st) (\<lambda>st.
        obind (put_char NUL (incr_index st)) (\<lambda>st.
        Next (st\<lparr>numREs := numREs st + 1\<rparr>))))))
      else
        obind (compile_largeRE rc st) (\<lambda>st. reset_largeRE st))"

fun optimise_loop ::
  "nat \<Rightarrow> (string \<Rightarrow> int \<Rightarrow> 'r option) \<Rightarrow> 'r opt_state \<Rightarrow> string list \<Rightarrow> 'r opt_state outcome" where
  "optimise_loop B rc st [] = Next st"
| "optimise_loop B rc st (i # sl) =
     (case loop_body B rc st i of
        OutOfBounds \<Rightarrow> OutOfBounds
      | Return0 lg \<Rightarrow> Return0 lg
      | Next st' \<Rightarrow> optimise_loop B rc st' sl)"

text \<open>The locals as declared, and after \<open>*largeRE = 0;\<close>.\<close>

definition declared :: "nat \<Rightarrow> (nat \<Rightarrow> char) \<Rightarrow> 'r opt_state" where
  "declared B junk =
     \<lparr>newlist = [], numREs = 0, cur_flags = REG_EXTENDED OR REG_NOSUB,
      largeREindex = 0, largeRE = map junk [0..<B]\<rparr>"

definition initial :: "nat \<Rightarrow> (nat \<Rightarrow> char) \<Rightarrow> 'r opt_state outcome" where
  "initial B junk =
     (case poke (largeRE (declared B junk :: 'r opt_state)) 0 NUL of
        None \<Rightarrow> OutOfBounds
      | Some buf \<Rightarrow> Next ((declared B junk)\<lparr>largeRE := buf\<rparr>))"

text \<open>
  The whole function: \<open>None\<close> for a write outside \<open>largeRE\<close>, else the return value (0 or
  1), the list \<open>curlist\<close> as the call leaves it, and the messages.
\<close>

definition compileOptimisedREs ::
  "nat \<Rightarrow> (nat \<Rightarrow> char) \<Rightarrow> (string \<Rightarrow> int \<Rightarrow> 'r option) \<Rightarrow> 'r RegexPattern list \<Rightarrow> string list
     \<Rightarrow> (int \<times> 'r RegexPattern list \<times> diag list) option" where
  "compileOptimisedREs B junk rc curlist sl =
     (case obind (obind (initial B junk) (\<lambda>st. optimise_loop B rc st sl)) (compile_largeRE rc) of
        OutOfBounds \<Rightarrow> None
      | Return0 lg \<Rightarrow> Some (0, curlist, lg)
      | Next st \<Rightarrow>
          Some (1, curlist @ newlist st, if 100 < numREs st then [TooManyREs] else []))"

subsection \<open>compileUnoptimisedREs\<close>

text \<open>The loop, with the local \<open>flags\<close>, the list \<open>curlist\<close> and the log as it grows.\<close>

fun unoptimised_loop ::
  "(string \<Rightarrow> int \<Rightarrow> 'r option) \<Rightarrow> int \<Rightarrow> 'r RegexPattern list \<Rightarrow> diag list \<Rightarrow> string list
     \<Rightarrow> 'r RegexPattern list \<times> diag list" where
  "unoptimised_loop rc cflags curlist lg [] = (curlist, lg)"
| "unoptimised_loop rc cflags curlist lg (i # sl) =
     (if i = ''-i'' then unoptimised_loop rc (cflags OR REG_ICASE) curlist lg sl
      else if i = ''+i'' then unoptimised_loop rc (cflags AND NOT REG_ICASE) curlist lg sl
      else (case compileRE rc curlist (Some (SBuf_c_str i)) cflags of
              (ok, curlist', lg') \<Rightarrow>
                unoptimised_loop rc cflags curlist'
                  (lg @ lg' @ (if ok then [] else [SkippingCompileFailed i])) sl))"

definition compileUnoptimisedREs ::
  "(string \<Rightarrow> int \<Rightarrow> 'r option) \<Rightarrow> 'r RegexPattern list \<Rightarrow> string list
     \<Rightarrow> 'r RegexPattern list \<times> diag list" where
  "compileUnoptimisedREs rc curlist sl =
     unoptimised_loop rc (REG_EXTENDED OR REG_NOSUB) curlist [] sl"

subsection \<open>parse\<close>

text \<open>
  The \<open>while\<close> loop over the tokens that \<open>ConfigParser::RegexStrtokFile\<close> returns until
  it returns null: \<open>ts\<close> is the list of those tokens, \<open>sl\<close> the list built so far.
\<close>

fun buffer_tokens :: "nat \<Rightarrow> string list \<Rightarrow> diag list \<Rightarrow> string list \<Rightarrow> string list \<times> diag list" where
  "buffer_tokens B sl lg [] = (sl, lg)"
| "buffer_tokens B sl lg (t # ts) =
     (case removeUnnecessaryWildcards t of
        (clean, lg') \<Rightarrow>
          if length clean > B - 1
          then buffer_tokens B sl (lg @ lg' @ [SkippingTooLarge clean]) ts
          else buffer_tokens B (sl @ [clean]) (lg @ lg') ts)"

text \<open>\<open>ACLRegexData::parse\<close>: the new \<open>data\<close> and the messages, or the fault.\<close>

definition parse ::
  "nat \<Rightarrow> (nat \<Rightarrow> char) \<Rightarrow> (string \<Rightarrow> int \<Rightarrow> 'r option) \<Rightarrow> 'r RegexPattern list \<Rightarrow> string list
     \<Rightarrow> ('r RegexPattern list \<times> diag list) option" where
  "parse B junk rc data ts =
     (case buffer_tokens B [] [] ts of
        (sl, lg) \<Rightarrow>
          (case compileOptimisedREs B junk rc data sl of
             None \<Rightarrow> None
           | Some (ret, data', lg1) \<Rightarrow>
               if ret = 0
               then (case compileUnoptimisedREs rc data' sl of
                       (data'', lg2) \<Rightarrow> Some (data'', lg @ lg1 @ [OptimisationFailed] @ lg2))
               else Some (data', lg @ lg1)))"

subsection \<open>The accumulator read as a string\<close>

text \<open>
  A second, array-free reading of \<open>compileOptimisedREs\<close>, proved below to give the same
  results: the state holds the bytes \<open>acc\<close> that \<open>largeRE\<close> holds before its terminator,
  and \<open>largeREindex\<close> is their number. It is what the proofs about the compiled entries
  work on.
\<close>

definition alt_append :: "string \<Rightarrow> string \<Rightarrow> string" where
  "alt_append s p = s @ (if s = [] then [] else ''|'') @ ''('' @ p @ '')''"

definition alternation :: "string list \<Rightarrow> string" where
  "alternation ps = foldl alt_append [] ps"

record 'r acc_state =
  a_newlist :: "'r RegexPattern list"
  a_numREs :: nat
  a_flags :: int
  acc :: string

definition acc_flush ::
  "(string \<Rightarrow> int \<Rightarrow> 'r option) \<Rightarrow> 'r acc_state \<Rightarrow> 'r acc_state outcome" where
  "acc_flush rc a =
     (case compileRE rc (a_newlist a) (Some (SBuf_c_str (acc a))) (a_flags a) of
        (ok, nl, lg) \<Rightarrow> if ok then Next (a\<lparr>a_newlist := nl\<rparr>) else Return0 lg)"

definition acc_body ::
  "nat \<Rightarrow> (string \<Rightarrow> int \<Rightarrow> 'r option) \<Rightarrow> 'r acc_state \<Rightarrow> string \<Rightarrow> 'r acc_state outcome" where
  "acc_body B rc a i =
     (if i = ''-i'' then
        (if (a_flags a AND REG_ICASE) \<noteq> 0 then Next a
         else obind (acc_flush rc a) (\<lambda>a.
              Next (a\<lparr>a_flags := a_flags a OR REG_ICASE, acc := []\<rparr>)))
      else if i = ''+i'' then
        (if (a_flags a AND REG_ICASE) = 0 then Next a
         else obind (acc_flush rc a) (\<lambda>a.
              Next (a\<lparr>a_flags := a_flags a AND NOT REG_ICASE, acc := []\<rparr>)))
      else if length i + length (acc a) + 3 < B - 1 then
        Next (a\<lparr>acc := alt_append (acc a) i, a_numREs := a_numREs a + 1\<rparr>)
      else obind (acc_flush rc a) (\<lambda>a. Next (a\<lparr>acc := []\<rparr>)))"

fun acc_loop ::
  "nat \<Rightarrow> (string \<Rightarrow> int \<Rightarrow> 'r option) \<Rightarrow> 'r acc_state \<Rightarrow> string list \<Rightarrow> 'r acc_state outcome" where
  "acc_loop B rc a [] = Next a"
| "acc_loop B rc a (i # sl) =
     (case acc_body B rc a i of
        OutOfBounds \<Rightarrow> OutOfBounds
      | Return0 lg \<Rightarrow> Return0 lg
      | Next a' \<Rightarrow> acc_loop B rc a' sl)"

definition acc_initial :: "'r acc_state" where
  "acc_initial = \<lparr>a_newlist = [], a_numREs = 0, a_flags = REG_EXTENDED OR REG_NOSUB, acc = []\<rparr>"

definition acc_compile ::
  "nat \<Rightarrow> (string \<Rightarrow> int \<Rightarrow> 'r option) \<Rightarrow> 'r RegexPattern list \<Rightarrow> string list
     \<Rightarrow> int \<times> 'r RegexPattern list \<times> diag list" where
  "acc_compile B rc curlist sl =
     (case obind (acc_loop B rc acc_initial sl) (acc_flush rc) of
        OutOfBounds \<Rightarrow> (0, curlist, [])
      | Return0 lg \<Rightarrow> (0, curlist, lg)
      | Next a \<Rightarrow> (1, curlist @ a_newlist a, if 100 < a_numREs a then [TooManyREs] else []))"

text \<open>
  The array of \<open>st\<close> holds the string \<open>s\<close>: its first bytes are \<open>s\<close>, the index stands
  at the terminator after them. \<open>written\<close> is the same while the bytes are being
  appended (no terminator yet), with the other locals as they are in \<open>st0\<close>.
\<close>

definition holds :: "nat \<Rightarrow> 'r opt_state \<Rightarrow> string \<Rightarrow> bool" where
  "holds B st s =
     (length (largeRE st) = B \<and> largeREindex st = length s \<and> length s < B \<and>
      take (length s) (largeRE st) = s \<and> largeRE st ! length s = NUL)"

definition written :: "nat \<Rightarrow> 'r opt_state \<Rightarrow> 'r opt_state \<Rightarrow> string \<Rightarrow> bool" where
  "written B st0 st s =
     (length (largeRE st) = B \<and> largeREindex st = length s \<and> take (length s) (largeRE st) = s \<and>
      newlist st = newlist st0 \<and> numREs st = numREs st0 \<and> cur_flags st = cur_flags st0)"

definition abstracts :: "nat \<Rightarrow> 'r opt_state \<Rightarrow> 'r acc_state \<Rightarrow> bool" where
  "abstracts B st a =
     (newlist st = a_newlist a \<and> numREs st = a_numREs a \<and> cur_flags st = a_flags a \<and>
      holds B st (acc a))"

fun outcome_rel :: "('a \<Rightarrow> 'b \<Rightarrow> bool) \<Rightarrow> 'a outcome \<Rightarrow> 'b outcome \<Rightarrow> bool" where
  "outcome_rel R (Next x) (Next y) = R x y"
| "outcome_rel R (Return0 lg) (Return0 lg') = (lg = lg')"
| "outcome_rel R _ _ = False"

subsection \<open>The specification's statements\<close>

text \<open>
  The flag sets the two compilers work with: extended syntax and no captures, with or
  without case-insensitivity.
\<close>

definition flag_ok :: "int \<Rightarrow> bool" where
  "flag_ok f = (f = (REG_EXTENDED OR REG_NOSUB) \<or> f = ((REG_EXTENDED OR REG_NOSUB) OR REG_ICASE))"

text \<open>
  serialize, in the specification's words: a tracker of case-insensitivity, a flag token
  before each entry that differs from it, then the entry's source text.
\<close>

fun serialize :: "bool \<Rightarrow> 'r RegexPattern list \<Rightarrow> string list" where
  "serialize insensitive [] = []"
| "serialize insensitive (i # rest) =
     (let ci = ((flags i AND REG_ICASE) \<noteq> 0)
      in (if ci \<noteq> insensitive then [if ci then ''-i'' else ''+i''] else [])
         @ [pattern i] @ serialize ci rest)"

text \<open>
  The FallbackCompiler, in the specification's words: the case flags in force at
  position \<open>k\<close> of the token sequence are the start flags with every flag token before
  \<open>k\<close> applied; the pattern text at position \<open>k\<close> gives one entry under these flags when
  the engine compiles it, and two messages when it does not.
\<close>

definition toggle :: "int \<Rightarrow> string \<Rightarrow> int" where
  "toggle f t =
     (if t = ''-i'' then f OR REG_ICASE else if t = ''+i'' then f AND NOT REG_ICASE else f)"

definition flags_at :: "string list \<Rightarrow> nat \<Rightarrow> int" where
  "flags_at sl k = foldl toggle (REG_EXTENDED OR REG_NOSUB) (take k sl)"

definition entry_at :: "(string \<Rightarrow> int \<Rightarrow> 'r option) \<Rightarrow> string list \<Rightarrow> nat \<Rightarrow> 'r RegexPattern list" where
  "entry_at rc sl k =
     (if sl ! k = ''-i'' \<or> sl ! k = ''+i'' then []
      else (case rc (sl ! k) (flags_at sl k) of
              None \<Rightarrow> []
            | Some h \<Rightarrow> [\<lparr>flags = flags_at sl k, pattern = sl ! k, regex = h\<rparr>]))"

definition diag_at :: "(string \<Rightarrow> int \<Rightarrow> 'r option) \<Rightarrow> string list \<Rightarrow> nat \<Rightarrow> diag list" where
  "diag_at rc sl k =
     (if sl ! k = ''-i'' \<or> sl ! k = ''+i'' then []
      else (case rc (sl ! k) (flags_at sl k) of
              None \<Rightarrow> [InvalidRegex (sl ! k), SkippingCompileFailed (sl ! k)]
            | Some h \<Rightarrow> []))"

text \<open>A token as the tokenizer and the trimmer give it: a C string that is not empty.\<close>

definition c_token :: "string \<Rightarrow> bool" where
  "c_token t = (t \<noteq> [] \<and> NUL \<notin> set t)"

text \<open>
  Every pattern text finds room in the accumulator when its turn comes: the test of the
  loop, with the index \<open>n\<close> and the flags \<open>f\<close> followed through the tokens.
\<close>

fun fits :: "nat \<Rightarrow> int \<Rightarrow> nat \<Rightarrow> string list \<Rightarrow> bool" where
  "fits B f n [] = True"
| "fits B f n (i # sl) =
     (if i = ''-i'' then fits B (f OR REG_ICASE) (if (f AND REG_ICASE) \<noteq> 0 then n else 0) sl
      else if i = ''+i'' then fits B (f AND NOT REG_ICASE) (if (f AND REG_ICASE) = 0 then n else 0) sl
      else length i + n + 3 < B - 1 \<and>
           fits B f (n + (if 0 < n then 1 else 0) + length i + 2) sl)"

text \<open>
  The rounds of the loop that flush the accumulator, that is, call compileRE on it: a flag
  token that changes the case flag, and a pattern text that finds no room.
\<close>

definition flushes :: "nat \<Rightarrow> 'r opt_state \<Rightarrow> string \<Rightarrow> bool" where
  "flushes B st i =
     (if i = ''-i'' then (cur_flags st AND REG_ICASE) = 0
      else if i = ''+i'' then (cur_flags st AND REG_ICASE) \<noteq> 0
      else \<not> length i + largeREindex st + 3 < B - 1)"

text \<open>
  What merging asks of the engine, for the pattern texts \<open>P\<close> and the two flag sets the
  compilers work with: when the alternation of some of the texts compiles under such a
  flag set, it matches exactly the words that one of them, compiled alone under the same
  flag set, matches. Nothing is asked about other flag words (without \<open>REG_EXTENDED\<close> a
  parenthesis is a literal).
\<close>

definition alternation_sound ::
  "(string \<Rightarrow> int \<Rightarrow> 'r option) \<Rightarrow> ('r \<Rightarrow> string \<Rightarrow> bool) \<Rightarrow> string set \<Rightarrow> bool" where
  "alternation_sound rc rx P =
     (\<forall>ps f h w.
        flag_ok f \<and> ps \<noteq> [] \<and> set ps \<subseteq> P \<and> rc (alternation ps) f = Some h \<longrightarrow>
        rx h w = (\<exists>p\<in>set ps. \<exists>hp. rc p f = Some hp \<and> rx hp w))"

subsection \<open>A small engine for the concrete runs\<close>

text \<open>
  An engine for a fragment of the POSIX extended syntax: a pattern is a literal (letters
  and digits, at least one) or an alternation \<open>(l1)|(l2)|...\<close> of literals in
  parentheses; every other text is rejected. The handle is the list of the literals and
  the case flag; a word matches when one of the literals occurs in it.
\<close>

definition literal_char :: "char \<Rightarrow> bool" where
  "literal_char c =
     (c \<in> set ''abcdefghijklmnopqrstuvwxyzABCDEFGHIJKLMNOPQRSTUVWXYZ0123456789'')"

definition lower :: "char \<Rightarrow> char" where
  "lower c =
     (case map_of (zip ''ABCDEFGHIJKLMNOPQRSTUVWXYZ'' ''abcdefghijklmnopqrstuvwxyz'') c of
        None \<Rightarrow> c
      | Some d \<Rightarrow> d)"

datatype toy_mode = Start | Inside string | After

fun toy_alts :: "toy_mode \<Rightarrow> string \<Rightarrow> string list option" where
  "toy_alts Start [] = None"
| "toy_alts Start (c # s) = (if c = CHR ''('' then toy_alts (Inside []) s else None)"
| "toy_alts (Inside l) [] = None"
| "toy_alts (Inside l) (c # s) =
     (if c = CHR '')'' then (if l = [] then None else map_option ((#) l) (toy_alts After s))
      else if literal_char c then toy_alts (Inside (l @ [c])) s
      else None)"
| "toy_alts After [] = Some []"
| "toy_alts After (c # s) = (if c = CHR ''|'' then toy_alts Start s else None)"

definition toy_regcomp :: "string \<Rightarrow> int \<Rightarrow> (string list \<times> bool) option" where
  "toy_regcomp re cflags =
     (let icase = ((cflags AND REG_ICASE) \<noteq> 0)
      in if re \<noteq> [] \<and> list_all literal_char re then Some ([re], icase)
         else map_option (\<lambda>alts. (alts, icase)) (toy_alts Start re))"

fun occurs :: "string \<Rightarrow> string \<Rightarrow> bool" where
  "occurs l [] = (l = [])"
| "occurs l (c # w) = (take (length l) (c # w) = l \<or> occurs l w)"

definition toy_regexec :: "string list \<times> bool \<Rightarrow> string \<Rightarrow> bool" where
  "toy_regexec h w =
     (case h of (alts, icase) \<Rightarrow>
        list_ex (\<lambda>l. if icase then occurs (map lower l) (map lower w) else occurs l w) alts)"

section \<open>Properties\<close>

subsection \<open>match\<close>

lemma match_walk_takeWhile:
  "match_walk rx asked data w =
     (let pre = takeWhile (\<lambda>i. \<not> RegexPattern_match rx i w) data
      in if length pre = length data then (False, asked @ map regex data)
         else (True, asked @ map regex (take (Suc (length pre)) data)))"
  by (induction data arbitrary: asked) (simp_all add: Let_def)

lemma match_walk_fst:
  "fst (match_walk rx asked data w) = (\<exists>i\<in>set data. RegexPattern_match rx i w)"
  by (induction data arbitrary: asked) simp_all

text \<open>
  C1. A null word gives false and the engine is not asked at all. For a word, let \<open>pre\<close>
  be the longest run of entries from the head of the list that do not match it: when
  \<open>pre\<close> is the whole list, the result is false and the engine was asked about every
  entry, in order; otherwise the result is true and the engine was asked about the
  entries of \<open>pre\<close> and the first matching entry after them, and about no later one.
\<close>

theorem match_first_hit:
  "match rx data None = (False, []) \<and>
   match rx data (Some w) =
     (let pre = takeWhile (\<lambda>i. \<not> RegexPattern_match rx i w) data
      in if length pre = length data then (False, map regex data)
         else (True, map regex (take (Suc (length pre)) data)))"
  by (simp add: match_def match_walk_takeWhile Let_def)

subsection \<open>compileRE\<close>

text \<open>
  C4. With a null or empty text, compileRE returns whether the destination list is
  empty and leaves the list as it is, whatever the flags. With a non-empty text that the
  engine rejects, it returns false, leaves the list as it is and logs the error.
\<close>

theorem compileRE_empty_or_rejected:
  "(RE = None \<or> RE = Some [] \<longrightarrow>
      compileRE rc curlist RE cflags = (curlist = [], curlist, [])) \<and>
   (\<forall>re. RE = Some re \<and> re \<noteq> [] \<and> rc re cflags = None \<longrightarrow>
      compileRE rc curlist RE cflags = (False, curlist, [InvalidRegex re]))"
  by (auto simp: compileRE_def)

theorem compileRE_empty_or_rejected_witness:
  "compileRE toy_regcomp ([] :: (string list \<times> bool) RegexPattern list) (Some []) 9 = (True, [], []) \<and>
   compileRE toy_regcomp [\<lparr>flags = 9, pattern = ''a'', regex = ([''a''], False)\<rparr>] (Some []) 9
     = (False, [\<lparr>flags = 9, pattern = ''a'', regex = ([''a''], False)\<rparr>], []) \<and>
   toy_regcomp ''(a'' 9 = None \<and>
   compileRE toy_regcomp [] (Some ''(a'') 9 = (False, [], [InvalidRegex ''(a''])"
proof -
  have rejected: "toy_regcomp ''(a'' 9 = None"
    by (simp add: toy_regcomp_def literal_char_def)
  have "compileRE toy_regcomp ([] :: (string list \<times> bool) RegexPattern list) (Some []) 9
          = (True, [], [])"
    using compileRE_empty_or_rejected [of "Some []" toy_regcomp "[]" 9] by simp
  moreover have
    "compileRE toy_regcomp [\<lparr>flags = 9, pattern = ''a'', regex = ([''a''], False)\<rparr>] (Some []) 9
       = (False, [\<lparr>flags = 9, pattern = ''a'', regex = ([''a''], False)\<rparr>], [])"
    using compileRE_empty_or_rejected
      [of "Some []" toy_regcomp "[\<lparr>flags = 9, pattern = ''a'', regex = ([''a''], False)\<rparr>]" 9]
    by simp
  moreover have "compileRE toy_regcomp [] (Some ''(a'') 9 = (False, [], [InvalidRegex ''(a''])"
    using compileRE_empty_or_rejected [of "Some ''(a''" toy_regcomp "[]" 9] rejected by simp
  ultimately show ?thesis using rejected by simp
qed

subsection \<open>removeUnnecessaryWildcards\<close>

lemma skip_wildcards_units:
  "\<exists>k. s = concat (replicate k ''.*'') @ skip_wildcards s \<and> take 2 (skip_wildcards s) \<noteq> ''.*''"
proof (induction s rule: skip_wildcards.induct)
  case (1 c1 c2 t)
  show ?case
  proof (cases "c1 = CHR ''.'' \<and> c2 = CHR ''*''")
    case True
    with 1 obtain k where k: "t = concat (replicate k ''.*'') @ skip_wildcards t"
      "take 2 (skip_wildcards t) \<noteq> ''.*''" by auto
    have "c1 # c2 # t = concat (replicate (Suc k) ''.*'') @ skip_wildcards t"
      using True k(1) by simp
    moreover have "skip_wildcards (c1 # c2 # t) = skip_wildcards t"
      using True by simp
    ultimately show ?thesis using k(2) by metis
  next
    case False
    then have "c1 # c2 # t = concat (replicate 0 ''.*'') @ skip_wildcards (c1 # c2 # t) \<and>
        take 2 (skip_wildcards (c1 # c2 # t)) \<noteq> ''.*''"
      by auto
    then show ?thesis by blast
  qed
qed (rule exI [of _ 0], simp)+

lemma trimmer_result:
  "fst (removeUnnecessaryWildcards orig) =
     (if skip_wildcards (if take 3 orig = ''^.*'' then drop 3 orig else orig) = [] then ''.*''
      else skip_wildcards (if take 3 orig = ''^.*'' then drop 3 orig else orig))"
proof -
  define s where "s = skip_wildcards (if take 3 orig = ''^.*'' then drop 3 orig else orig)"
  have "fst (removeUnnecessaryWildcards orig) = (if s = [] then ''.*'' else s)"
    unfolding removeUnnecessaryWildcards_def Let_def s_def [symmetric] by simp
  then show ?thesis by (simp only: s_def)
qed

lemma removeUnnecessaryWildcards_not_empty: "fst (removeUnnecessaryWildcards t) \<noteq> []"
  by (simp add: trimmer_result)

text \<open>
  C6, as the specification states it, fails: the text \<open>....*bar\<close> starts with two dots,
  not with a dot and a star, so nothing is stripped and the result is not \<open>bar\<close>.
\<close>

theorem trimmer_four_dots_counterexample:
  "fst (removeUnnecessaryWildcards ''....*bar'') \<noteq> ''bar''"
  by (simp add: trimmer_result)

text \<open>
  C6, amended. The input is an optional leading \<open>^.*\<close>, then some number \<open>k\<close> of
  complete \<open>.*\<close> units, then a rest \<open>t\<close> that does not start with \<open>.*\<close>; the result is
  \<open>t\<close>, or the catch-all \<open>.*\<close> when \<open>t\<close> is empty. So \<open>^.*foo\<close> gives \<open>foo\<close>, \<open>.*.*bar\<close>
  gives \<open>bar\<close>, \<open>....*bar\<close> and \<open>.foo\<close> (a lone leading dot) stay as they are, and \<open>^.*\<close>
  and the empty text give the catch-all.
\<close>

theorem trimmer_strips_units:
  "(\<exists>k t. orig = (if take 3 orig = ''^.*'' then ''^.*'' else []) @ concat (replicate k ''.*'') @ t \<and>
          take 2 t \<noteq> ''.*'' \<and>
          fst (removeUnnecessaryWildcards orig) = (if t = [] then ''.*'' else t)) \<and>
   fst (removeUnnecessaryWildcards ''^.*foo'') = ''foo'' \<and>
   fst (removeUnnecessaryWildcards ''.*.*bar'') = ''bar'' \<and>
   fst (removeUnnecessaryWildcards ''....*bar'') = ''....*bar'' \<and>
   fst (removeUnnecessaryWildcards ''.foo'') = ''.foo'' \<and>
   fst (removeUnnecessaryWildcards ''^.*'') = ''.*'' \<and>
   fst (removeUnnecessaryWildcards []) = ''.*''"
proof -
  define s where "s = (if take 3 orig = ''^.*'' then drop 3 orig else orig)"
  obtain k where k: "s = concat (replicate k ''.*'') @ skip_wildcards s"
    "take 2 (skip_wildcards s) \<noteq> ''.*''"
    using skip_wildcards_units by blast
  have "orig = (if take 3 orig = ''^.*'' then ''^.*'' else []) @ s"
  proof (cases "take 3 orig = ''^.*''")
    case True
    then have "orig = ''^.*'' @ drop 3 orig" by (metis append_take_drop_id)
    with True show ?thesis by (simp add: s_def)
  next
    case False
    then show ?thesis by (simp add: s_def)
  qed
  with k(1) have "orig = (if take 3 orig = ''^.*'' then ''^.*'' else [])
      @ concat (replicate k ''.*'') @ skip_wildcards s"
    by metis
  moreover have "fst (removeUnnecessaryWildcards orig)
      = (if skip_wildcards s = [] then ''.*'' else skip_wildcards s)"
    unfolding trimmer_result s_def ..
  ultimately have general:
    "\<exists>k t. orig = (if take 3 orig = ''^.*'' then ''^.*'' else []) @ concat (replicate k ''.*'') @ t \<and>
          take 2 t \<noteq> ''.*'' \<and>
          fst (removeUnnecessaryWildcards orig) = (if t = [] then ''.*'' else t)"
    using k(2) by blast
  have e1: "fst (removeUnnecessaryWildcards ''^.*foo'') = ''foo''"
    by (simp add: trimmer_result)
  have e2: "fst (removeUnnecessaryWildcards ''.*.*bar'') = ''bar''"
    by (simp add: trimmer_result)
  have e3: "fst (removeUnnecessaryWildcards ''....*bar'') = ''....*bar''"
    by (simp add: trimmer_result)
  have e4: "fst (removeUnnecessaryWildcards ''.foo'') = ''.foo''"
    by (simp add: trimmer_result)
  have e5: "fst (removeUnnecessaryWildcards ''^.*'') = ''.*''"
    by (simp add: trimmer_result)
  have e6: "fst (removeUnnecessaryWildcards []) = ''.*''"
    by (simp add: trimmer_result)
  from general e1 e2 e3 e4 e5 e6 show ?thesis by blast
qed

subsection \<open>dump\<close>

lemma dump_walk_serialize:
  assumes "flag_ok f" and "\<forall>i\<in>set data. flag_ok (flags i)"
  shows "dump_walk f sl data = sl @ serialize ((f AND REG_ICASE) \<noteq> 0) data"
  using assms
proof (induction data arbitrary: f sl)
  case Nil
  then show ?case by simp
next
  case (Cons i rest)
  from Cons.prems have i: "flag_ok (flags i)" and rest: "\<forall>i\<in>set rest. flag_ok (flags i)"
    by simp_all
  have differ: "(flags i \<noteq> f) = (((flags i AND REG_ICASE) \<noteq> 0) \<noteq> ((f AND REG_ICASE) \<noteq> 0))"
    using i Cons.prems(1)
    by (auto simp: flag_ok_def REG_EXTENDED_def REG_NOSUB_def REG_ICASE_def)
  show ?case
  proof (cases "flags i \<noteq> f")
    case True
    with differ Cons.IH [OF i rest] show ?thesis by (simp add: Let_def)
  next
    case False
    with differ Cons.IH [OF Cons.prems(1) rest] show ?thesis by (simp add: Let_def)
  qed
qed

text \<open>
  C7. On a list whose entries carry the flag sets the compilers produce, dump gives what
  the specification's serialize gives with the tracker starting at case-sensitive.
\<close>

theorem dump_serialize:
  assumes "\<forall>i\<in>set data. flag_ok (flags i)"
  shows "dump data = serialize False data"
proof -
  have "flag_ok (REG_EXTENDED OR REG_NOSUB)" by (simp add: flag_ok_def)
  from dump_walk_serialize [OF this assms, of "[]"] show ?thesis
    by (simp add: dump_def REG_EXTENDED_def REG_NOSUB_def REG_ICASE_def)
qed

theorem dump_serialize_witness:
  "list_all (\<lambda>i. flag_ok (flags i))
     [\<lparr>flags = 11, pattern = ''(a)|(b)'', regex = ()\<rparr>, \<lparr>flags = 11, pattern = ''(c)'', regex = ()\<rparr>,
      \<lparr>flags = 9, pattern = ''(d)'', regex = ()\<rparr>] \<and>
   dump [\<lparr>flags = 11, pattern = ''(a)|(b)'', regex = ()\<rparr>, \<lparr>flags = 11, pattern = ''(c)'', regex = ()\<rparr>,
         \<lparr>flags = 9, pattern = ''(d)'', regex = ()\<rparr>]
     = [''-i'', ''(a)|(b)'', ''(c)'', ''+i'', ''(d)'']"
proof -
  let ?data = "[\<lparr>flags = 11, pattern = ''(a)|(b)'', regex = ()\<rparr>,
                \<lparr>flags = 11, pattern = ''(c)'', regex = ()\<rparr>,
                \<lparr>flags = 9, pattern = ''(d)'', regex = ()\<rparr>]"
  have ok: "\<forall>i\<in>set ?data. flag_ok (flags i)"
    by (simp add: flag_ok_def REG_EXTENDED_def REG_NOSUB_def REG_ICASE_def)
  have "serialize False ?data = [''-i'', ''(a)|(b)'', ''(c)'', ''+i'', ''(d)'']"
    by (simp add: REG_ICASE_def)
  with dump_serialize [OF ok] ok show ?thesis by (simp add: list_all_iff)
qed

subsection \<open>The array and the string reading give the same results\<close>

lemma takeWhile_stop: "takeWhile (\<lambda>c. c \<noteq> z) (s @ z # r) = takeWhile (\<lambda>c. c \<noteq> z) s"
  by (induction s) simp_all

lemma holds_c_str:
  assumes "holds B st s"
  shows "c_str (largeRE st) = Some (SBuf_c_str s)"
proof -
  let ?buf = "largeRE st" and ?n = "length s"
  from assms have n: "?n < length ?buf" and t: "take ?n ?buf = s" and z: "?buf ! ?n = NUL"
    by (simp_all add: holds_def)
  have split: "?buf = s @ NUL # drop (Suc ?n) ?buf"
    using id_take_nth_drop [OF n] t z by simp
  have "NUL \<in> set ?buf" by (subst split) simp
  moreover have "takeWhile (\<lambda>c. c \<noteq> NUL) ?buf = takeWhile (\<lambda>c. c \<noteq> NUL) s"
    by (subst split) (rule takeWhile_stop)
  ultimately show ?thesis by (simp add: c_str_def SBuf_c_str_def)
qed

lemma flush_refines:
  assumes "abstracts B st a"
  shows "outcome_rel (abstracts B) (compile_largeRE rc st) (acc_flush rc a)"
proof -
  from assms have h: "holds B st (acc a)" by (simp add: abstracts_def)
  show ?thesis
    using assms
    by (auto simp: compile_largeRE_def acc_flush_def holds_c_str [OF h] abstracts_def holds_def
             split: prod.splits)
qed

lemma reset_refines:
  assumes "abstracts B st a"
  shows "outcome_rel (abstracts B) (reset_largeRE (st\<lparr>cur_flags := f\<rparr>))
           (Next (a\<lparr>a_flags := f, acc := []\<rparr>))"
  using assms by (auto simp: reset_largeRE_def poke_def abstracts_def holds_def)

lemma reset_refines':
  assumes "abstracts B st a"
  shows "outcome_rel (abstracts B) (reset_largeRE st) (Next (a\<lparr>acc := []\<rparr>))"
  using assms by (auto simp: reset_largeRE_def poke_def abstracts_def holds_def)

lemma obind_refines:
  assumes "outcome_rel R m m'" and "\<And>x y. R x y \<Longrightarrow> outcome_rel R' (f x) (g y)"
  shows "outcome_rel R' (obind m f) (obind m' g)"
  using assms by (cases m; cases m') (simp_all add: obind_def)


lemma obind_Next [simp]: "obind (Next x) f = f x"
  by (simp add: obind_def)

lemma obind_Return0 [simp]: "obind (Return0 lg) f = Return0 lg"
  by (simp add: obind_def)

lemma obind_OutOfBounds [simp]: "obind OutOfBounds f = OutOfBounds"
  by (simp add: obind_def)

lemma put_char_written:
  assumes "written B st0 st s" and "length s < B"
  shows "\<exists>st'. put_char c st = Next st' \<and> written B st0 (incr_index st') (s @ [c])"
  using assms
  by (simp add: written_def put_char_def poke_def incr_index_def take_Suc_conv_app_nth)

lemma copy_token_written:
  assumes "written B st0 st s" and "length s + length i \<le> B"
  shows "\<exists>st'. copy_token B i st = Next st' \<and> written B st0 st' (s @ i)"
  using assms
  by (auto simp: written_def copy_token_def SBuf_copy_def min_def)

lemma put_NUL_written:
  assumes "written B st0 st s" and "length s < B"
  shows "\<exists>st'. put_char NUL st = Next st' \<and> written B st0 st' s \<and> largeRE st' ! length s = NUL"
  using assms
  by (simp add: written_def put_char_def poke_def)

lemma append_refines:
  assumes abs: "abstracts B st a" and fit: "length i + largeREindex st + 3 < B - 1"
  shows "outcome_rel (abstracts B)
           (obind (if 0 < largeREindex st
                   then obind (put_char (CHR ''|'') st) (\<lambda>st. Next (incr_index st))
                   else Next st) (\<lambda>st.
            obind (put_char (CHR ''('') st) (\<lambda>st.
            obind (copy_token B i (incr_index st)) (\<lambda>st.
            obind (put_char (CHR '')'') st) (\<lambda>st.
            obind (put_char NUL (incr_index st)) (\<lambda>st.
            Next (st\<lparr>numREs := numREs st + 1\<rparr>)))))))
           (Next (a\<lparr>acc := alt_append (acc a) i, a_numREs := a_numREs a + 1\<rparr>))"
proof -
  let ?s = "acc a"
  from abs have w0: "written B st st ?s" and n: "largeREindex st = length ?s"
    by (simp_all add: abstracts_def holds_def written_def)
  define s1 where "s1 = ?s @ (if ?s = [] then [] else ''|'')"
  from fit n have len: "length s1 + length i + 3 < B" by (auto simp: s1_def)
  obtain st1 where st1:
    "(if 0 < largeREindex st
      then obind (put_char (CHR ''|'') st) (\<lambda>st. Next (incr_index st))
      else Next st) = Next st1" "written B st st1 s1"
  proof (cases "?s = []")
    case True
    with w0 n that [of st] show ?thesis by (simp add: s1_def)
  next
    case False
    from put_char_written [OF w0, of "CHR ''|''"] len obtain st' where
      "put_char (CHR ''|'') st = Next st'" "written B st (incr_index st') (?s @ ''|'')"
      by (auto simp: s1_def)
    with False n that [of "incr_index st'"] show ?thesis by (simp add: s1_def)
  qed
  from put_char_written [OF st1(2), of "CHR ''(''"] len obtain st2 where st2:
    "put_char (CHR ''('') st1 = Next st2" "written B st (incr_index st2) (s1 @ ''('')"
    by auto
  from copy_token_written [OF st2(2), of i] len obtain st3 where st3:
    "copy_token B i (incr_index st2) = Next st3" "written B st st3 ((s1 @ ''('') @ i)"
    by auto
  from put_char_written [OF st3(2), of "CHR '')''"] len obtain st4 where st4:
    "put_char (CHR '')'') st3 = Next st4" "written B st (incr_index st4) (((s1 @ ''('') @ i) @ '')'')"
    by auto
  from put_NUL_written [OF st4(2)] len obtain st5 where st5:
    "put_char NUL (incr_index st4) = Next st5" "written B st st5 (((s1 @ ''('') @ i) @ '')'')"
    "largeRE st5 ! length (((s1 @ ''('') @ i) @ '')'') = NUL"
    by auto
  have app: "((s1 @ ''('') @ i) @ '')'' = alt_append ?s i"
    by (simp add: s1_def alt_append_def)
  from len have len': "length (alt_append ?s i) < B"
    unfolding app [symmetric] by simp
  from st5 len' abs have "abstracts B (st5\<lparr>numREs := numREs st5 + 1\<rparr>)
      (a\<lparr>acc := alt_append ?s i, a_numREs := a_numREs a + 1\<rparr>)"
    unfolding app by (simp add: abstracts_def holds_def written_def)
  then show ?thesis
    by (simp add: st1(1) st2(1) st3(1) st4(1) st5(1))
qed

lemma body_refines:
  assumes "abstracts B st a"
  shows "outcome_rel (abstracts B) (loop_body B rc st i) (acc_body B rc a i)"
proof -
  from assms have n: "largeREindex st = length (acc a)" and f: "cur_flags st = a_flags a"
    by (simp_all add: abstracts_def holds_def)
  have flush_reset: "outcome_rel (abstracts B)
      (obind (compile_largeRE rc st) (\<lambda>st. reset_largeRE (st\<lparr>cur_flags := g (cur_flags st)\<rparr>)))
      (obind (acc_flush rc a) (\<lambda>a. Next (a\<lparr>a_flags := g (a_flags a), acc := []\<rparr>)))" for g
  proof (rule obind_refines [OF flush_refines [OF assms]])
    fix x y assume "abstracts B x (y :: 'a acc_state)"
    then show "outcome_rel (abstracts B) (reset_largeRE (x\<lparr>cur_flags := g (cur_flags x)\<rparr>))
        (Next (y\<lparr>a_flags := g (a_flags y), acc := []\<rparr>))"
      using reset_refines [of B x y "g (cur_flags x)"] by (simp add: abstracts_def)
  qed
  show ?thesis
  proof (cases "i = ''-i''")
    case True
    then show ?thesis
      using assms flush_reset [of "\<lambda>f. f OR REG_ICASE"] by (simp add: loop_body_def acc_body_def f)
  next
    case False
    note not_minus = this
    show ?thesis
    proof (cases "i = ''+i''")
      case True
      then show ?thesis
        using assms flush_reset [of "\<lambda>f. f AND NOT REG_ICASE"]
        by (simp add: loop_body_def acc_body_def f)
    next
      case False
      show ?thesis
      proof (cases "length i + largeREindex st + 3 < B - 1")
        case True
        then show ?thesis
          using append_refines [OF assms True] not_minus False
          by (simp add: loop_body_def acc_body_def n)
      next
        case full: False
        have "outcome_rel (abstracts B)
            (obind (compile_largeRE rc st) (\<lambda>st. reset_largeRE st))
            (obind (acc_flush rc a) (\<lambda>a. Next (a\<lparr>acc := []\<rparr>)))"
          by (rule obind_refines [OF flush_refines [OF assms]]) (rule reset_refines')
        then show ?thesis
          using not_minus False full by (simp add: loop_body_def acc_body_def n)
      qed
    qed
  qed
qed

lemma loop_refines:
  assumes "abstracts B st a"
  shows "outcome_rel (abstracts B) (optimise_loop B rc st sl) (acc_loop B rc a sl)"
  using assms
proof (induction sl arbitrary: st a)
  case Nil
  then show ?case by simp
next
  case (Cons i sl)
  from body_refines [OF Cons.prems, of rc i] show ?case
    by (cases "loop_body B rc st i"; cases "acc_body B rc a i") (simp_all add: Cons.IH)
qed

lemma initial_refines:
  assumes "0 < B"
  shows "outcome_rel (abstracts B) (initial B junk :: 'r opt_state outcome) (Next acc_initial)"
  using assms
  by (simp add: initial_def declared_def poke_def acc_initial_def abstracts_def holds_def)

lemma compileOptimisedREs_acc:
  assumes "0 < B"
  shows "compileOptimisedREs B junk rc curlist sl = Some (acc_compile B rc curlist sl)"
proof -
  have "outcome_rel (abstracts B)
      (obind (initial B junk) (\<lambda>st. optimise_loop B rc st sl))
      (obind (Next acc_initial) (\<lambda>a. acc_loop B rc a sl))"
    by (rule obind_refines [OF initial_refines [OF assms]]) (rule loop_refines)
  then have "outcome_rel (abstracts B)
      (obind (obind (initial B junk) (\<lambda>st. optimise_loop B rc st sl)) (compile_largeRE rc))
      (obind (obind (Next acc_initial) (\<lambda>a. acc_loop B rc a sl)) (acc_flush rc))"
    by (rule obind_refines) (rule flush_refines)
  then show ?thesis
    by (cases "obind (obind (initial B junk) (\<lambda>st. optimise_loop B rc st sl)) (compile_largeRE rc)";
        cases "obind (acc_loop B rc acc_initial sl) (acc_flush rc)")
       (simp_all add: compileOptimisedREs_def acc_compile_def abstracts_def)
qed

lemma optimise_loop_append:
  "optimise_loop B rc st (sl1 @ sl2) = obind (optimise_loop B rc st sl1) (\<lambda>st'. optimise_loop B rc st' sl2)"
  by (induction sl1 arbitrary: st) (simp_all split: outcome.splits)

lemma acc_loop_append:
  "acc_loop B rc a (sl1 @ sl2) = obind (acc_loop B rc a sl1) (\<lambda>a'. acc_loop B rc a' sl2)"
  by (induction sl1 arbitrary: a) (simp_all split: outcome.splits)

lemmas acc_eval =
  acc_compile_def acc_initial_def acc_body_def acc_flush_def compileRE_def alt_append_def
  SBuf_c_str_def NUL_def REG_EXTENDED_def REG_ICASE_def REG_NOSUB_def

lemmas toy_eval = toy_regcomp_def toy_regexec_def literal_char_def lower_def

subsection \<open>compileOptimisedREs: bounds\<close>

text \<open>
  C10. For every token sequence (whatever the lengths of its pattern texts), with an
  array of at least one byte: the first write \<open>*largeRE = 0\<close> is inside the array, no
  round of the loop writes outside it, after the loop the index is below the capacity
  and stands at a terminator, and the whole function ends without a fault.
\<close>

theorem accumulation_within_bounds:
  fixes rc :: "string \<Rightarrow> int \<Rightarrow> 'r option"
  assumes "0 < B"
  shows "compileOptimisedREs B junk rc curlist sl \<noteq> None \<and>
         (\<exists>st0. initial B junk = Next st0 \<and> optimise_loop B rc st0 sl \<noteq> OutOfBounds \<and>
            (\<forall>st. optimise_loop B rc st0 sl = Next st \<longrightarrow>
               length (largeRE st) = B \<and> largeREindex st < B \<and>
               largeRE st ! largeREindex st = NUL))"
proof -
  have "outcome_rel (abstracts B) (initial B junk :: 'r opt_state outcome) (Next acc_initial)"
    by (rule initial_refines [OF assms])
  then obtain st0 :: "'r opt_state" where
    st0: "initial B junk = Next st0" "abstracts B st0 acc_initial"
    by (cases "initial B junk :: 'r opt_state outcome") simp_all
  have rel: "outcome_rel (abstracts B) (optimise_loop B rc st0 sl) (acc_loop B rc acc_initial sl)"
    by (rule loop_refines [OF st0(2)])
  have no_fault: "optimise_loop B rc st0 sl \<noteq> OutOfBounds"
    using rel by (cases "optimise_loop B rc st0 sl") simp_all
  have inside: "length (largeRE st) = B \<and> largeREindex st < B \<and> largeRE st ! largeREindex st = NUL"
    if "optimise_loop B rc st0 sl = Next st" for st
    using rel that
    by (cases "acc_loop B rc acc_initial sl") (simp_all add: abstracts_def holds_def)
  have "compileOptimisedREs B junk rc curlist sl \<noteq> None"
    by (simp add: compileOptimisedREs_acc [OF assms])
  with st0(1) no_fault inside show ?thesis by blast
qed

theorem accumulation_within_bounds_witness:
  "(0::nat) < 16 \<and>
   compileOptimisedREs 16 (\<lambda>_. CHR ''x'') toy_regcomp [] [''abc'', ''defghijk'', ''lmn'']
     = Some (1, [\<lparr>flags = 9, pattern = ''(abc)'', regex = ([''abc''], False)\<rparr>,
                 \<lparr>flags = 9, pattern = ''(lmn)'', regex = ([''lmn''], False)\<rparr>], [])"
proof -
  have pos: "(0::nat) < 16" by simp
  from accumulation_within_bounds [OF pos, of "\<lambda>_. CHR ''x''" toy_regcomp "[]"
      "[''abc'', ''defghijk'', ''lmn'']"]
  obtain r where r: "compileOptimisedREs 16 (\<lambda>_. CHR ''x'') toy_regcomp []
      [''abc'', ''defghijk'', ''lmn''] = Some r"
    by auto
  have "r = acc_compile 16 toy_regcomp [] [''abc'', ''defghijk'', ''lmn'']"
    using r by (simp add: compileOptimisedREs_acc [OF pos])
  also have "\<dots> = (1, [\<lparr>flags = 9, pattern = ''(abc)'', regex = ([''abc''], False)\<rparr>,
                 \<lparr>flags = 9, pattern = ''(lmn)'', regex = ([''lmn''], False)\<rparr>], [])"
    by (simp add: acc_eval toy_eval)
  finally show ?thesis using r by simp
qed

subsection \<open>compileOptimisedREs: all or nothing\<close>

lemma compile_largeRE_Return0:
  "compile_largeRE rc st = Return0 lg \<longleftrightarrow>
     (\<exists>re nl. c_str (largeRE st) = Some re \<and>
        compileRE rc (newlist st) (Some re) (cur_flags st) = (False, nl, lg))"
  by (auto simp: compile_largeRE_def split: option.splits prod.splits if_splits)

lemma compile_largeRE_Next:
  "compile_largeRE rc st = Next st' \<longleftrightarrow>
     (\<exists>re nl lg. c_str (largeRE st) = Some re \<and>
        compileRE rc (newlist st) (Some re) (cur_flags st) = (True, nl, lg) \<and>
        st' = st\<lparr>newlist := nl\<rparr>)"
  by (auto simp: compile_largeRE_def split: option.splits prod.splits if_splits)

lemma reset_largeRE_not_Return0: "reset_largeRE st \<noteq> Return0 lg"
  by (simp add: reset_largeRE_def split: option.splits)

lemma put_char_not_Return0: "put_char c st \<noteq> Return0 lg"
  by (simp add: put_char_def split: option.splits)

lemma copy_token_not_Return0: "copy_token B i st \<noteq> Return0 lg"
  by (simp add: copy_token_def split: option.splits)

lemma obind_Return0_iff:
  "obind m f = Return0 lg \<longleftrightarrow> m = Return0 lg \<or> (\<exists>x. m = Next x \<and> f x = Return0 lg)"
  by (cases m) simp_all

lemma loop_body_flush_fails:
  assumes "flushes B st i" and "compile_largeRE rc st = Return0 lg"
  shows "loop_body B rc st i = Return0 lg"
  using assms by (auto simp: loop_body_def flushes_def split: if_splits)

lemma loop_body_Return0:
  assumes "loop_body B rc st i = Return0 lg"
  shows "flushes B st i \<and> compile_largeRE rc st = Return0 lg"
proof (cases "i = ''-i'' \<or> i = ''+i'' \<or> \<not> length i + largeREindex st + 3 < B - 1")
  case True
  with assms show ?thesis
    by (auto simp: loop_body_def flushes_def obind_Return0_iff reset_largeRE_not_Return0
        split: if_splits)
next
  case False
  with assms show ?thesis
    by (auto simp: loop_body_def obind_Return0_iff put_char_not_Return0 copy_token_not_Return0
        split: if_splits)
qed

lemma optimise_loop_Return0:
  assumes "optimise_loop B rc s sl = Return0 lg"
  shows "\<exists>sl1 i sl2 st. sl = sl1 @ i # sl2 \<and> optimise_loop B rc s sl1 = Next st \<and>
           flushes B st i \<and> compile_largeRE rc st = Return0 lg"
  using assms
proof (induction sl arbitrary: s)
  case Nil
  then show ?case by simp
next
  case (Cons i sl)
  show ?case
  proof (cases "loop_body B rc s i")
    case OutOfBounds
    with Cons.prems show ?thesis by simp
  next
    case (Return0 lg')
    with Cons.prems have "lg' = lg" by simp
    with Return0 loop_body_Return0 [of B rc s i lg]
    have "i # sl = [] @ i # sl \<and> optimise_loop B rc s [] = Next s \<and>
        flushes B s i \<and> compile_largeRE rc s = Return0 lg"
      by simp
    then show ?thesis by blast
  next
    case (Next s')
    with Cons.prems have "optimise_loop B rc s' sl = Return0 lg" by simp
    from Cons.IH [OF this] obtain sl1 j sl2 st where
      "sl = sl1 @ j # sl2" "optimise_loop B rc s' sl1 = Next st"
      "flushes B st j" "compile_largeRE rc st = Return0 lg"
      by blast
    with Next have "i # sl = (i # sl1) @ j # sl2 \<and> optimise_loop B rc s (i # sl1) = Next st \<and>
        flushes B st j \<and> compile_largeRE rc st = Return0 lg"
      by simp
    then show ?thesis by blast
  qed
qed

lemma reachable_abstracts:
  fixes rc :: "string \<Rightarrow> int \<Rightarrow> 'r option"
  assumes "0 < B" and "initial B junk = Next st0" and "optimise_loop B rc st0 sl = Next st"
  shows "\<exists>a. abstracts B st a"
proof -
  have "outcome_rel (abstracts B) (initial B junk :: 'r opt_state outcome) (Next acc_initial)"
    by (rule initial_refines [OF assms(1)])
  with assms(2) have "abstracts B st0 acc_initial" by simp
  from loop_refines [OF this, of rc sl] assms(3) show ?thesis
    by (cases "acc_loop B rc acc_initial sl") auto
qed

lemma flush_round_keeps_entries:
  fixes rc :: "string \<Rightarrow> int \<Rightarrow> 'r option"
  assumes abs: "abstracts B st a" and fl: "flushes B st i"
    and re: "c_str (largeRE st) = Some re"
    and c: "compileRE rc (newlist st) (Some re) (cur_flags st) = (True, nl, lg)"
  shows "\<exists>st'. loop_body B rc st i = Next st' \<and> newlist st' = nl"
proof -
  from abs have h: "holds B st (acc a)" and eq: "newlist st = a_newlist a" "cur_flags st = a_flags a"
    "largeREindex st = length (acc a)"
    by (simp_all add: abstracts_def holds_def)
  from holds_c_str [OF h] re have "re = SBuf_c_str (acc a)" by simp
  with c eq have "acc_flush rc a = Next (a\<lparr>a_newlist := nl\<rparr>)"
    by (simp add: acc_flush_def)
  with fl eq have "\<exists>a'. acc_body B rc a i = Next a' \<and> a_newlist a' = nl"
    by (auto simp: acc_body_def flushes_def split: if_splits)
  with body_refines [OF abs, of rc i] show ?thesis
    by (cases "loop_body B rc st i") (auto simp: abstracts_def)
qed

lemma other_round_keeps_entries:
  fixes rc :: "string \<Rightarrow> int \<Rightarrow> 'r option"
  assumes abs: "abstracts B st a" and fl: "\<not> flushes B st i"
  shows "\<exists>st'. loop_body B rc st i = Next st' \<and> newlist st' = newlist st"
proof -
  from abs have eq: "newlist st = a_newlist a" "cur_flags st = a_flags a"
    "largeREindex st = length (acc a)"
    by (simp_all add: abstracts_def holds_def)
  with fl have "\<exists>a'. acc_body B rc a i = Next a' \<and> a_newlist a' = a_newlist a"
    by (auto simp: acc_body_def flushes_def split: if_splits)
  with body_refines [OF abs, of rc i] eq show ?thesis
    by (cases "loop_body B rc st i") (auto simp: abstracts_def)
qed

lemma optimise_loop_snoc:
  "optimise_loop B rc st0 sl1 = Next st \<Longrightarrow>
   optimise_loop B rc st0 (sl1 @ [i]) = loop_body B rc st i"
  by (simp add: optimise_loop_append split: outcome.splits)

text \<open>
  C3. The outcome of the Optimizer does not depend on the destination list: either it
  returns 0 for every destination list and leaves that list as it is, or it returns 1 for
  every destination list and leaves it with the same new entries appended at its end.
  A flush is a call of compileRE on the accumulator: inside the loop at a flag token
  that changes the case flag and at a pattern text that finds no room, and once after the
  loop. When the tokens \<open>sl1\<close> have been processed and the flush at the next token \<open>i\<close>
  fails (compileRE returns false), the function returns 0 with the messages of that
  compile and the destination list untouched, whatever tokens \<open>sl2\<close> follow; when the
  flush after the loop fails, the same. The function returns 0 in no other case. When
  the loop ends and the flush after it succeeds, the function returns 1 and the
  destination list has the entries of \<open>newlist\<close>, as that compile leaves it, at its end.
  On the way, a flush that succeeds leaves \<open>newlist\<close> as its compile leaves it, and a
  round that does not flush leaves \<open>newlist\<close> as it is: the entries appended in the end
  are those of the flushes, all of them.
\<close>

theorem optimiser_all_or_nothing:
  fixes rc :: "string \<Rightarrow> int \<Rightarrow> 'r option"
  assumes "0 < B"
  shows "((\<exists>lg. \<forall>curlist. compileOptimisedREs B junk rc curlist sl = Some (0, curlist, lg)) \<or>
          (\<exists>new lg. \<forall>curlist. compileOptimisedREs B junk rc curlist sl = Some (1, curlist @ new, lg))) \<and>
         (\<forall>st0 sl1 i sl2 st re nl lg curlist.
            initial B junk = Next st0 \<and> sl = sl1 @ i # sl2 \<and>
            optimise_loop B rc st0 sl1 = Next st \<and> flushes B st i \<and>
            c_str (largeRE st) = Some re \<and>
            compileRE rc (newlist st) (Some re) (cur_flags st) = (False, nl, lg) \<longrightarrow>
            compileOptimisedREs B junk rc curlist sl = Some (0, curlist, lg)) \<and>
         (\<forall>st0 st re nl lg curlist.
            initial B junk = Next st0 \<and> optimise_loop B rc st0 sl = Next st \<and>
            c_str (largeRE st) = Some re \<and>
            compileRE rc (newlist st) (Some re) (cur_flags st) = (False, nl, lg) \<longrightarrow>
            compileOptimisedREs B junk rc curlist sl = Some (0, curlist, lg)) \<and>
         (\<forall>curlist curlist' lg.
            compileOptimisedREs B junk rc curlist sl = Some (0, curlist', lg) \<longrightarrow>
            (\<exists>st0 st re nl.
               initial B junk = Next st0 \<and> c_str (largeRE st) = Some re \<and>
               compileRE rc (newlist st) (Some re) (cur_flags st) = (False, nl, lg) \<and>
               ((\<exists>sl1 i sl2. sl = sl1 @ i # sl2 \<and> optimise_loop B rc st0 sl1 = Next st \<and>
                   flushes B st i) \<or>
                optimise_loop B rc st0 sl = Next st))) \<and>
         (\<forall>st0 st re nl lg curlist.
            initial B junk = Next st0 \<and> optimise_loop B rc st0 sl = Next st \<and>
            c_str (largeRE st) = Some re \<and>
            compileRE rc (newlist st) (Some re) (cur_flags st) = (True, nl, lg) \<longrightarrow>
            compileOptimisedREs B junk rc curlist sl
              = Some (1, curlist @ nl, if 100 < numREs st then [TooManyREs] else [])) \<and>
         (\<forall>st0 sl1 i st re nl lg.
            initial B junk = Next st0 \<and> optimise_loop B rc st0 sl1 = Next st \<and>
            flushes B st i \<and> c_str (largeRE st) = Some re \<and>
            compileRE rc (newlist st) (Some re) (cur_flags st) = (True, nl, lg) \<longrightarrow>
            (\<exists>st'. optimise_loop B rc st0 (sl1 @ [i]) = Next st' \<and> newlist st' = nl)) \<and>
         (\<forall>st0 sl1 i st.
            initial B junk = Next st0 \<and> optimise_loop B rc st0 sl1 = Next st \<and>
            \<not> flushes B st i \<longrightarrow>
            (\<exists>st'. optimise_loop B rc st0 (sl1 @ [i]) = Next st' \<and> newlist st' = newlist st))"
proof -
  let ?run = "obind (obind (initial B junk) (\<lambda>st. optimise_loop B rc st sl)) (compile_largeRE rc)"
  have "compileOptimisedREs B junk rc [] sl \<noteq> None"
    by (simp add: compileOptimisedREs_acc [OF assms])
  then have no_fault: "?run \<noteq> OutOfBounds"
    by (auto simp: compileOptimisedREs_def)
  have first: "(\<exists>lg. \<forall>curlist. compileOptimisedREs B junk rc curlist sl = Some (0, curlist, lg)) \<or>
      (\<exists>new lg. \<forall>curlist. compileOptimisedREs B junk rc curlist sl = Some (1, curlist @ new, lg))"
  proof (cases ?run)
    case OutOfBounds
    with no_fault show ?thesis by simp
  next
    case (Return0 lg)
    then have "\<forall>curlist. compileOptimisedREs B junk rc curlist sl = Some (0, curlist, lg)"
      by (simp add: compileOptimisedREs_def)
    then show ?thesis by blast
  next
    case (Next st)
    then have "\<forall>curlist. compileOptimisedREs B junk rc curlist sl
        = Some (1, curlist @ newlist st, if 100 < numREs st then [TooManyREs] else [])"
      by (simp add: compileOptimisedREs_def)
    then show ?thesis by blast
  qed
  have in_loop: "\<forall>st0 sl1 i sl2 st re nl lg curlist.
      initial B junk = Next st0 \<and> sl = sl1 @ i # sl2 \<and>
      optimise_loop B rc st0 sl1 = Next st \<and> flushes B st i \<and>
      c_str (largeRE st) = Some re \<and>
      compileRE rc (newlist st) (Some re) (cur_flags st) = (False, nl, lg) \<longrightarrow>
      compileOptimisedREs B junk rc curlist sl = Some (0, curlist, lg)"
  proof (intro allI impI)
    fix st0 sl1 i sl2 st re nl lg curlist
    assume a: "initial B junk = Next st0 \<and> sl = sl1 @ i # sl2 \<and>
      optimise_loop B rc st0 sl1 = Next st \<and> flushes B st i \<and>
      c_str (largeRE st) = Some re \<and>
      compileRE rc (newlist st) (Some re) (cur_flags st) = (False, nl, lg)"
    then have "compile_largeRE rc st = Return0 lg"
      unfolding compile_largeRE_Return0 by blast
    with a have "loop_body B rc st i = Return0 lg"
      by (simp add: loop_body_flush_fails)
    with a have "optimise_loop B rc st0 sl = Return0 lg"
      by (simp add: optimise_loop_append)
    with a show "compileOptimisedREs B junk rc curlist sl = Some (0, curlist, lg)"
      by (simp add: compileOptimisedREs_def)
  qed
  have at_end: "\<forall>st0 st re nl lg curlist.
      initial B junk = Next st0 \<and> optimise_loop B rc st0 sl = Next st \<and>
      c_str (largeRE st) = Some re \<and>
      compileRE rc (newlist st) (Some re) (cur_flags st) = (False, nl, lg) \<longrightarrow>
      compileOptimisedREs B junk rc curlist sl = Some (0, curlist, lg)"
  proof (intro allI impI)
    fix st0 st re nl lg curlist
    assume a: "initial B junk = Next st0 \<and> optimise_loop B rc st0 sl = Next st \<and>
      c_str (largeRE st) = Some re \<and>
      compileRE rc (newlist st) (Some re) (cur_flags st) = (False, nl, lg)"
    then have "compile_largeRE rc st = Return0 lg"
      unfolding compile_largeRE_Return0 by blast
    with a show "compileOptimisedREs B junk rc curlist sl = Some (0, curlist, lg)"
      by (simp add: compileOptimisedREs_def)
  qed
  have only_then: "\<forall>curlist curlist' lg.
      compileOptimisedREs B junk rc curlist sl = Some (0, curlist', lg) \<longrightarrow>
      (\<exists>st0 st re nl.
         initial B junk = Next st0 \<and> c_str (largeRE st) = Some re \<and>
         compileRE rc (newlist st) (Some re) (cur_flags st) = (False, nl, lg) \<and>
         ((\<exists>sl1 i sl2. sl = sl1 @ i # sl2 \<and> optimise_loop B rc st0 sl1 = Next st \<and>
             flushes B st i) \<or>
          optimise_loop B rc st0 sl = Next st))"
  proof (intro allI impI)
    fix curlist curlist' lg
    assume r: "compileOptimisedREs B junk rc curlist sl = Some (0, curlist', lg)"
    then have run: "?run = Return0 lg"
      by (cases ?run) (simp_all add: compileOptimisedREs_def)
    have "outcome_rel (abstracts B) (initial B junk :: 'r opt_state outcome) (Next acc_initial)"
      by (rule initial_refines [OF assms])
    then obtain st0 :: "'r opt_state" where st0: "initial B junk = Next st0"
      by (cases "initial B junk :: 'r opt_state outcome") simp_all
    from run st0 have "optimise_loop B rc st0 sl = Return0 lg \<or>
        (\<exists>st. optimise_loop B rc st0 sl = Next st \<and> compile_largeRE rc st = Return0 lg)"
      by (simp add: obind_Return0_iff)
    then show "\<exists>st0 st re nl.
         initial B junk = Next st0 \<and> c_str (largeRE st) = Some re \<and>
         compileRE rc (newlist st) (Some re) (cur_flags st) = (False, nl, lg) \<and>
         ((\<exists>sl1 i sl2. sl = sl1 @ i # sl2 \<and> optimise_loop B rc st0 sl1 = Next st \<and>
             flushes B st i) \<or>
          optimise_loop B rc st0 sl = Next st)"
    proof
      assume "optimise_loop B rc st0 sl = Return0 lg"
      from optimise_loop_Return0 [OF this] obtain sl1 i sl2 st where
        s: "sl = sl1 @ i # sl2" "optimise_loop B rc st0 sl1 = Next st" "flushes B st i"
        and "compile_largeRE rc st = Return0 lg"
        by blast
      then obtain re nl where "c_str (largeRE st) = Some re"
        "compileRE rc (newlist st) (Some re) (cur_flags st) = (False, nl, lg)"
        unfolding compile_largeRE_Return0 by blast
      with st0 s show ?thesis by blast
    next
      assume "\<exists>st. optimise_loop B rc st0 sl = Next st \<and> compile_largeRE rc st = Return0 lg"
      then obtain st where s: "optimise_loop B rc st0 sl = Next st"
        and "compile_largeRE rc st = Return0 lg"
        by blast
      then obtain re nl where "c_str (largeRE st) = Some re"
        "compileRE rc (newlist st) (Some re) (cur_flags st) = (False, nl, lg)"
        unfolding compile_largeRE_Return0 by blast
      with st0 s show ?thesis by blast
    qed
  qed
  have success: "\<forall>st0 st re nl lg curlist.
      initial B junk = Next st0 \<and> optimise_loop B rc st0 sl = Next st \<and>
      c_str (largeRE st) = Some re \<and>
      compileRE rc (newlist st) (Some re) (cur_flags st) = (True, nl, lg) \<longrightarrow>
      compileOptimisedREs B junk rc curlist sl
        = Some (1, curlist @ nl, if 100 < numREs st then [TooManyREs] else [])"
  proof (intro allI impI)
    fix st0 st re nl lg curlist
    assume a: "initial B junk = Next st0 \<and> optimise_loop B rc st0 sl = Next st \<and>
      c_str (largeRE st) = Some re \<and>
      compileRE rc (newlist st) (Some re) (cur_flags st) = (True, nl, lg)"
    then have "compile_largeRE rc st = Next (st\<lparr>newlist := nl\<rparr>)"
      unfolding compile_largeRE_Next by blast
    with a show "compileOptimisedREs B junk rc curlist sl
        = Some (1, curlist @ nl, if 100 < numREs st then [TooManyREs] else [])"
      by (simp add: compileOptimisedREs_def)
  qed
  have kept_flush: "\<forall>st0 sl1 i st re nl lg.
      initial B junk = Next st0 \<and> optimise_loop B rc st0 sl1 = Next st \<and>
      flushes B st i \<and> c_str (largeRE st) = Some re \<and>
      compileRE rc (newlist st) (Some re) (cur_flags st) = (True, nl, lg) \<longrightarrow>
      (\<exists>st'. optimise_loop B rc st0 (sl1 @ [i]) = Next st' \<and> newlist st' = nl)"
  proof (intro allI impI)
    fix st0 sl1 i st re nl lg
    assume a: "initial B junk = Next st0 \<and> optimise_loop B rc st0 sl1 = Next st \<and>
      flushes B st i \<and> c_str (largeRE st) = Some re \<and>
      compileRE rc (newlist st) (Some re) (cur_flags st) = (True, nl, lg)"
    then obtain a' where "abstracts B st a'"
      using reachable_abstracts [OF assms, of junk st0 rc sl1 st] by blast
    from flush_round_keeps_entries [OF this, of i re rc nl lg] a
    show "\<exists>st'. optimise_loop B rc st0 (sl1 @ [i]) = Next st' \<and> newlist st' = nl"
      by (simp add: optimise_loop_snoc)
  qed
  have kept_other: "\<forall>st0 sl1 i st.
      initial B junk = Next st0 \<and> optimise_loop B rc st0 sl1 = Next st \<and>
      \<not> flushes B st i \<longrightarrow>
      (\<exists>st'. optimise_loop B rc st0 (sl1 @ [i]) = Next st' \<and> newlist st' = newlist st)"
  proof (intro allI impI)
    fix st0 sl1 i st
    assume a: "initial B junk = Next st0 \<and> optimise_loop B rc st0 sl1 = Next st \<and>
      \<not> flushes B st i"
    then obtain a' where "abstracts B st a'"
      using reachable_abstracts [OF assms, of junk st0 rc sl1 st] by blast
    from other_round_keeps_entries [OF this, of i rc] a
    show "\<exists>st'. optimise_loop B rc st0 (sl1 @ [i]) = Next st' \<and> newlist st' = newlist st"
      by (simp add: optimise_loop_snoc)
  qed
  show ?thesis
    by (rule conjI [OF first conjI [OF in_loop conjI [OF at_end conjI [OF only_then
          conjI [OF success conjI [OF kept_flush kept_other]]]]]])
qed

theorem optimiser_all_or_nothing_witness:
  "(0::nat) < 16 \<and>
   (\<forall>curlist. compileOptimisedREs 16 (\<lambda>_. CHR ''x'') toy_regcomp curlist [''a(b'', ''-i'', ''c'']
      = Some (0, curlist, [InvalidRegex ''(a(b)''])) \<and>
   (\<forall>curlist. compileOptimisedREs 16 (\<lambda>_. CHR ''x'') toy_regcomp curlist [''abc'', ''a(b'']
      = Some (0, curlist, [InvalidRegex ''(abc)|(a(b)''])) \<and>
   (\<forall>curlist. compileOptimisedREs 16 (\<lambda>_. CHR ''x'') toy_regcomp curlist [''abc'', ''-i'', ''def'']
      = Some (1, curlist @ [\<lparr>flags = 9, pattern = ''(abc)'', regex = ([''abc''], False)\<rparr>,
                            \<lparr>flags = 11, pattern = ''(def)'', regex = ([''def''], True)\<rparr>], [])) \<and>
   (\<exists>st'. obind (initial 16 (\<lambda>_. CHR ''x''))
            (\<lambda>st0. optimise_loop 16 toy_regcomp st0 [''abc'', ''-i'']) = Next st' \<and>
          newlist st' = [\<lparr>flags = 9, pattern = ''(abc)'', regex = ([''abc''], False)\<rparr>]) \<and>
   (\<exists>st'. obind (initial 16 (\<lambda>_. CHR ''x''))
            (\<lambda>st0. optimise_loop 16 toy_regcomp st0 [''abc'', ''d'']) = Next st' \<and>
          newlist st' = [])"
proof -
  let ?J = "\<lambda>_::nat. CHR ''x''"
  let ?x = "CHR ''x''"
  let ?e1 = "\<lparr>flags = 9, pattern = ''(abc)'', regex = ([''abc''], False)\<rparr>"
  let ?e2 = "\<lparr>flags = 11, pattern = ''(def)'', regex = ([''def''], True)\<rparr>"
  let ?S0 = "\<lparr>newlist = [], numREs = 0, cur_flags = 9, largeREindex = 0,
      largeRE = [CHR 0x00, ?x, ?x, ?x, ?x, ?x, ?x, ?x, ?x, ?x, ?x, ?x, ?x, ?x, ?x, ?x]\<rparr>
      :: (string list \<times> bool) opt_state"
  let ?S1 = "\<lparr>newlist = [], numREs = 1, cur_flags = 9, largeREindex = 5,
      largeRE = [CHR ''('', CHR ''a'', CHR ''('', CHR ''b'', CHR '')'', CHR 0x00,
                 ?x, ?x, ?x, ?x, ?x, ?x, ?x, ?x, ?x, ?x]\<rparr>
      :: (string list \<times> bool) opt_state"
  let ?S2 = "\<lparr>newlist = [], numREs = 2, cur_flags = 9, largeREindex = 11,
      largeRE = [CHR ''('', CHR ''a'', CHR ''b'', CHR ''c'', CHR '')'', CHR ''|'',
                 CHR ''('', CHR ''a'', CHR ''('', CHR ''b'', CHR '')'', CHR 0x00,
                 ?x, ?x, ?x, ?x]\<rparr>
      :: (string list \<times> bool) opt_state"
  let ?S3 = "\<lparr>newlist = [?e1], numREs = 2, cur_flags = 11, largeREindex = 5,
      largeRE = [CHR ''('', CHR ''d'', CHR ''e'', CHR ''f'', CHR '')'', CHR 0x00,
                 ?x, ?x, ?x, ?x, ?x, ?x, ?x, ?x, ?x, ?x]\<rparr>
      :: (string list \<times> bool) opt_state"
  note run = initial_def declared_def loop_body_def compile_largeRE_def reset_largeRE_def
    put_char_def incr_index_def copy_token_def SBuf_copy_def c_str_def poke_def compileRE_def
    NUL_def REG_EXTENDED_def REG_ICASE_def REG_NOSUB_def toy_regcomp_def literal_char_def upt_rec
  have pos: "(0::nat) < 16" by simp
  have start: "initial 16 ?J = Next ?S0"
    by (simp add: run)
  have l1: "optimise_loop 16 toy_regcomp ?S0 [''a(b''] = Next ?S1"
    by (simp add: run)
  have f1: "flushes 16 ?S1 ''-i''"
    by (simp add: flushes_def REG_ICASE_def)
  have s1: "c_str (largeRE ?S1) = Some ''(a(b)''"
    by (simp add: c_str_def NUL_def)
  have c1: "compileRE toy_regcomp (newlist ?S1) (Some ''(a(b)'') (cur_flags ?S1)
      = (False, [], [InvalidRegex ''(a(b)''])"
    by (simp add: compileRE_def toy_regcomp_def literal_char_def)
  note thm1 = optimiser_all_or_nothing [OF pos, of ?J toy_regcomp "[''a(b'', ''-i'', ''c'']"]
  have first: "compileOptimisedREs 16 ?J toy_regcomp curlist [''a(b'', ''-i'', ''c'']
      = Some (0, curlist, [InvalidRegex ''(a(b)''])" for curlist
    using conjunct1 [OF conjunct2 [OF thm1], rule_format,
        of ?S0 "[''a(b'']" "''-i''" "[''c'']" ?S1 "''(a(b)''" "[]" "[InvalidRegex ''(a(b)'']" curlist]
      start l1 f1 s1 c1
    by simp
  have l2: "optimise_loop 16 toy_regcomp ?S0 [''abc'', ''a(b''] = Next ?S2"
    by (simp add: run)
  have s2: "c_str (largeRE ?S2) = Some ''(abc)|(a(b)''"
    by (simp add: c_str_def NUL_def)
  have c2: "compileRE toy_regcomp (newlist ?S2) (Some ''(abc)|(a(b)'') (cur_flags ?S2)
      = (False, [], [InvalidRegex ''(abc)|(a(b)''])"
    by (simp add: compileRE_def toy_regcomp_def literal_char_def)
  note thm2 = optimiser_all_or_nothing [OF pos, of ?J toy_regcomp "[''abc'', ''a(b'']"]
  have second: "compileOptimisedREs 16 ?J toy_regcomp curlist [''abc'', ''a(b'']
      = Some (0, curlist, [InvalidRegex ''(abc)|(a(b)''])" for curlist
    using conjunct1 [OF conjunct2 [OF conjunct2 [OF thm2]], rule_format,
        of ?S0 ?S2 "''(abc)|(a(b)''" "[]" "[InvalidRegex ''(abc)|(a(b)'']" curlist]
      start l2 s2 c2
    by simp
  have l3: "optimise_loop 16 toy_regcomp ?S0 [''abc'', ''-i'', ''def''] = Next ?S3"
    by (simp add: run)
  have s3: "c_str (largeRE ?S3) = Some ''(def)''"
    by (simp add: c_str_def NUL_def)
  have c3: "compileRE toy_regcomp (newlist ?S3) (Some ''(def)'') (cur_flags ?S3)
      = (True, [?e1, ?e2], [])"
    by (simp add: compileRE_def toy_regcomp_def literal_char_def REG_ICASE_def)
  note thm3 = optimiser_all_or_nothing [OF pos, of ?J toy_regcomp "[''abc'', ''-i'', ''def'']"]
  have third: "compileOptimisedREs 16 ?J toy_regcomp curlist [''abc'', ''-i'', ''def'']
      = Some (1, curlist @ [?e1, ?e2], [])" for curlist
    using conjunct1 [OF conjunct2 [OF conjunct2 [OF conjunct2 [OF conjunct2 [OF thm3]]]],
        rule_format, of ?S0 ?S3 "''(def)''" "[?e1, ?e2]" "[]" curlist]
      start l3 s3 c3
    by simp
  let ?S4 = "\<lparr>newlist = [], numREs = 1, cur_flags = 9, largeREindex = 5,
      largeRE = [CHR ''('', CHR ''a'', CHR ''b'', CHR ''c'', CHR '')'', CHR 0x00,
                 ?x, ?x, ?x, ?x, ?x, ?x, ?x, ?x, ?x, ?x]\<rparr>
      :: (string list \<times> bool) opt_state"
  have l4: "optimise_loop 16 toy_regcomp ?S0 [''abc''] = Next ?S4"
    by (simp add: run)
  have f4: "flushes 16 ?S4 ''-i''" "\<not> flushes 16 ?S4 ''d''"
    by (simp_all add: flushes_def REG_ICASE_def)
  have s4: "c_str (largeRE ?S4) = Some ''(abc)''"
    by (simp add: c_str_def NUL_def)
  have c4: "compileRE toy_regcomp (newlist ?S4) (Some ''(abc)'') (cur_flags ?S4) = (True, [?e1], [])"
    by (simp add: compileRE_def toy_regcomp_def literal_char_def REG_ICASE_def)
  have fourth: "\<exists>st'. obind (initial 16 ?J)
      (\<lambda>st0. optimise_loop 16 toy_regcomp st0 [''abc'', ''-i'']) = Next st' \<and> newlist st' = [?e1]"
    using conjunct1 [OF conjunct2 [OF conjunct2 [OF conjunct2 [OF conjunct2 [OF conjunct2 [OF thm3]]]]],
        rule_format, of ?S0 "[''abc'']" ?S4 "''-i''" "''(abc)''" "[?e1]" "[]"]
      start l4 f4(1) s4 c4
    by simp
  have fifth: "\<exists>st'. obind (initial 16 ?J)
      (\<lambda>st0. optimise_loop 16 toy_regcomp st0 [''abc'', ''d'']) = Next st' \<and> newlist st' = []"
    using conjunct2 [OF conjunct2 [OF conjunct2 [OF conjunct2 [OF conjunct2 [OF conjunct2 [OF thm3]]]]],
        rule_format, of ?S0 "[''abc'']" ?S4 "''d''"]
      start l4 f4(2)
    by simp
  from pos first second third fourth fifth show ?thesis by (intro conjI allI)
qed

subsection \<open>The capacity branch of compileOptimisedREs\<close>

lemma SBuf_c_str_id: "NUL \<notin> set s \<Longrightarrow> SBuf_c_str s = s"
  by (auto simp: SBuf_c_str_def takeWhile_eq_all_conv)

lemma NUL_alt_append: "NUL \<notin> set s \<Longrightarrow> NUL \<notin> set p \<Longrightarrow> NUL \<notin> set (alt_append s p)"
  by (simp add: alt_append_def NUL_def)

lemma alt_append_not_empty: "alt_append s p \<noteq> []"
  by (simp add: alt_append_def)

lemma length_alt_append:
  "length (alt_append s p) = length s + (if 0 < length s then 1 else 0) + length p + 2"
  by (simp add: alt_append_def)

lemma capacity_flush_skips:
  fixes rc :: "string \<Rightarrow> int \<Rightarrow> 'r option"
  assumes B: "0 < B"
    and p1: "p1 \<noteq> ''-i''" "p1 \<noteq> ''+i''" "NUL \<notin> set p1" "length p1 + 3 < B - 1"
    and p2: "p2 \<noteq> ''-i''" "p2 \<noteq> ''+i''" "\<not> length p2 + (length p1 + 2) + 3 < B - 1"
    and p3: "p3 \<noteq> ''-i''" "p3 \<noteq> ''+i''" "NUL \<notin> set p3" "length p3 + 3 < B - 1"
    and h1: "rc (''('' @ p1 @ '')'') (REG_EXTENDED OR REG_NOSUB) = Some h1"
    and h3: "rc (''('' @ p3 @ '')'') (REG_EXTENDED OR REG_NOSUB) = Some h3"
  shows "compileOptimisedREs B junk rc curlist [p1, p2, p3] =
           Some (1, curlist @ [\<lparr>flags = REG_EXTENDED OR REG_NOSUB, pattern = ''('' @ p1 @ '')'', regex = h1\<rparr>,
                     \<lparr>flags = REG_EXTENDED OR REG_NOSUB, pattern = ''('' @ p3 @ '')'', regex = h3\<rparr>], [])"
proof -
  let ?F = "REG_EXTENDED OR REG_NOSUB"
  let ?a1 = "\<lparr>a_newlist = [], a_numREs = 1, a_flags = ?F, acc = ''('' @ p1 @ '')''\<rparr> :: 'r acc_state"
  let ?e1 = "\<lparr>flags = ?F, pattern = ''('' @ p1 @ '')'', regex = h1\<rparr>"
  let ?e3 = "\<lparr>flags = ?F, pattern = ''('' @ p3 @ '')'', regex = h3\<rparr>"
  let ?a2 = "\<lparr>a_newlist = [?e1], a_numREs = 1, a_flags = ?F, acc = []\<rparr> :: 'r acc_state"
  let ?a3 = "\<lparr>a_newlist = [?e1], a_numREs = 2, a_flags = ?F, acc = ''('' @ p3 @ '')''\<rparr> :: 'r acc_state"
  have s1: "acc_body B rc acc_initial p1 = Next ?a1"
    using p1 by (simp add: acc_body_def acc_initial_def alt_append_def)
  have c1: "SBuf_c_str (CHR ''('' # p1 @ '')'') = CHR ''('' # p1 @ '')''"
    using p1(3) by (intro SBuf_c_str_id) (simp add: NUL_def)
  have s2: "acc_body B rc ?a1 p2 = Next ?a2"
    using p2 h1 by (simp add: acc_body_def acc_flush_def compileRE_def c1)
  have s3: "acc_body B rc ?a2 p3 = Next ?a3"
    using p3 by (simp add: acc_body_def alt_append_def)
  have c3: "SBuf_c_str (CHR ''('' # p3 @ '')'') = CHR ''('' # p3 @ '')''"
    using p3(3) by (intro SBuf_c_str_id) (simp add: NUL_def)
  have s4: "acc_flush rc ?a3 = Next (?a3\<lparr>a_newlist := [?e1, ?e3]\<rparr>)"
    using h3 by (simp add: acc_flush_def compileRE_def c3)
  have "acc_loop B rc acc_initial [p1, p2, p3] = Next ?a3"
    by (simp only: acc_loop.simps s1 s2 s3 outcome.case)
  then have "obind (acc_loop B rc acc_initial [p1, p2, p3]) (acc_flush rc)
      = Next (?a3\<lparr>a_newlist := [?e1, ?e3]\<rparr>)"
    by (simp only: obind_Next s4)
  then have "acc_compile B rc curlist [p1, p2, p3] = (1, curlist @ [?e1, ?e3], [])"
    unfolding acc_compile_def by simp
  then show ?thesis by (simp add: compileOptimisedREs_acc [OF B])
qed

subsection \<open>The small engine\<close>

lemma literal_char_plain:
  "literal_char c \<Longrightarrow> c \<noteq> CHR ''('' \<and> c \<noteq> CHR '')'' \<and> c \<noteq> CHR ''|'' \<and> c \<noteq> NUL"
  by (auto simp: literal_char_def NUL_def)

lemma toy_alts_Inside_literal:
  "list_all literal_char p \<Longrightarrow> toy_alts (Inside l) (p @ rest) = toy_alts (Inside (l @ p)) rest"
proof (induction p arbitrary: l)
  case Nil
  then show ?case by simp
next
  case (Cons c p)
  then have "literal_char c" "list_all literal_char p" by simp_all
  with Cons.IH [of "l @ [c]"] literal_char_plain [of c] show ?case by simp
qed

lemma toy_alts_group:
  assumes "p \<noteq> []" and "list_all literal_char p"
  shows "toy_alts Start (CHR ''('' # p @ CHR '')'' # rest) = map_option ((#) p) (toy_alts After rest)"
  using assms toy_alts_Inside_literal [of p "[]" "CHR '')'' # rest"] by simp

lemma foldl_alt_append:
  "s \<noteq> [] \<Longrightarrow> foldl alt_append s ps = s @ concat (map (\<lambda>q. ''|('' @ q @ '')'') ps)"
  by (induction ps arbitrary: s) (simp_all add: alt_append_def)

lemma alternation_Cons:
  "alternation (p # ps) = CHR ''('' # p @ CHR '')'' # concat (map (\<lambda>q. ''|('' @ q @ '')'') ps)"
  by (simp add: alternation_def foldl_alt_append alt_append_not_empty) (simp add: alt_append_def)

lemma alternation_snoc: "alternation (ps @ [p]) = alt_append (alternation ps) p"
  by (simp add: alternation_def)

lemma alternation_empty: "(alternation ps = []) = (ps = [])"
  by (cases ps) (simp_all add: alternation_Cons, simp add: alternation_def)

lemma toy_alts_After:
  assumes "\<forall>q\<in>set ps. q \<noteq> [] \<and> list_all literal_char q"
  shows "toy_alts After (concat (map (\<lambda>q. ''|('' @ q @ '')'') ps)) = Some ps"
  using assms
proof (induction ps)
  case Nil
  then show ?case by simp
next
  case (Cons q ps)
  then have q: "q \<noteq> []" "list_all literal_char q" by simp_all
  from Cons have "toy_alts After (concat (map (\<lambda>q. ''|('' @ q @ '')'') ps)) = Some ps" by simp
  with toy_alts_group [OF q] show ?case by simp
qed

lemma toy_regcomp_literal:
  assumes "p \<noteq> []" and "list_all literal_char p"
  shows "toy_regcomp p f = Some ([p], (f AND REG_ICASE) \<noteq> 0)"
  using assms by (simp add: toy_regcomp_def)

lemma toy_regcomp_alternation:
  assumes "ps \<noteq> []" and "\<forall>q\<in>set ps. q \<noteq> [] \<and> list_all literal_char q"
  shows "toy_regcomp (alternation ps) f = Some (ps, (f AND REG_ICASE) \<noteq> 0)"
proof -
  from assms(1) obtain p qs where ps: "ps = p # qs" by (cases ps) auto
  with assms(2) have p: "p \<noteq> []" "list_all literal_char p"
    and qs: "\<forall>q\<in>set qs. q \<noteq> [] \<and> list_all literal_char q" by simp_all
  have "\<not> literal_char (CHR ''('')" by (simp add: literal_char_def)
  then have "\<not> list_all literal_char (alternation ps)"
    by (simp add: ps alternation_Cons)
  moreover have "toy_alts Start (alternation ps) = Some ps"
    unfolding ps alternation_Cons
    by (simp only: toy_alts_group [OF p] toy_alts_After [OF qs] option.map)
  ultimately show ?thesis by (simp add: toy_regcomp_def)
qed

lemma toy_alternation_sound:
  assumes "\<forall>p\<in>P. p \<noteq> [] \<and> list_all literal_char p"
  shows "alternation_sound toy_regcomp toy_regexec P"
  unfolding alternation_sound_def
proof (intro allI impI)
  fix ps f h w
  assume a: "flag_ok f \<and> ps \<noteq> [] \<and> set ps \<subseteq> P \<and> toy_regcomp (alternation ps) f = Some h"
  with assms have lit: "\<forall>q\<in>set ps. q \<noteq> [] \<and> list_all literal_char q" by blast
  from a toy_regcomp_alternation [OF _ lit, of f] have h: "h = (ps, (f AND REG_ICASE) \<noteq> 0)"
    by simp
  have "toy_regcomp p f = Some ([p], (f AND REG_ICASE) \<noteq> 0)" if "p \<in> set ps" for p
    using lit that by (simp add: toy_regcomp_literal)
  then show "toy_regexec h w = (\<exists>p\<in>set ps. \<exists>hp. toy_regcomp p f = Some hp \<and> toy_regexec hp w)"
    unfolding h by (auto simp: toy_regexec_def list_ex_iff)
qed


subsection \<open>A pattern lost at the capacity branch\<close>

text \<open>
  C2 fails on the code. With \<open>BUFSIZ = 8192\<close> (glibc) and the tokens \<open>a...a\<close> (8187
  letters), \<open>b\<close>, \<open>c\<close>: the first pattern fills the accumulator, \<open>b\<close> finds no room, so
  the accumulator is compiled and cleared; the \<open>continue\<close> then goes on with \<open>c\<close>, and
  \<open>b\<close> is in no compiled entry although the function returns 1.
\<close>

theorem capacity_flush_drops_pattern:
  "compileOptimisedREs 8192 (\<lambda>_. CHR ''x'') toy_regcomp []
     [replicate 8187 (CHR ''a''), ''b'', ''c'']
   = Some (1, [\<lparr>flags = 9, pattern = ''('' @ replicate 8187 (CHR ''a'') @ '')'',
                  regex = ([replicate 8187 (CHR ''a'')], False)\<rparr>,
               \<lparr>flags = 9, pattern = ''(c)'', regex = ([''c''], False)\<rparr>], [])"
proof -
  let ?p1 = "replicate 8187 (CHR ''a'')"
  let ?F = "REG_EXTENDED OR REG_NOSUB"
  have ne1: "?p1 \<noteq> ''-i''"
  proof
    assume "?p1 = ''-i''"
    then have "length ?p1 = length ''-i''" by (rule arg_cong)
    then show False by simp
  qed
  have ne2: "?p1 \<noteq> ''+i''"
  proof
    assume "?p1 = ''+i''"
    then have "length ?p1 = length ''+i''" by (rule arg_cong)
    then show False by simp
  qed
  have lit: "\<forall>q\<in>set [?p1]. q \<noteq> [] \<and> list_all literal_char q"
    by (simp add: list_all_iff literal_char_def)
  have h1: "toy_regcomp (''('' @ ?p1 @ '')'') ?F = Some ([?p1], False)"
    using toy_regcomp_alternation [OF _ lit, of ?F]
    by (simp add: alternation_Cons REG_EXTENDED_def REG_NOSUB_def REG_ICASE_def)
  have h3: "toy_regcomp (''('' @ ''c'' @ '')'') ?F = Some ([''c''], False)"
    by (simp add: toy_eval REG_EXTENDED_def REG_NOSUB_def REG_ICASE_def)
  have "compileOptimisedREs 8192 (\<lambda>_. CHR ''x'') toy_regcomp [] [?p1, ''b'', ''c'']
      = Some (1, [] @ [\<lparr>flags = ?F, pattern = ''('' @ ?p1 @ '')'', regex = ([?p1], False)\<rparr>,
                       \<lparr>flags = ?F, pattern = ''('' @ ''c'' @ '')'', regex = ([''c''], False)\<rparr>], [])"
  proof (rule capacity_flush_skips [where ?p1.0 = ?p1 and ?p2.0 = "''b''" and ?p3.0 = "''c''"])
    show "toy_regcomp (''('' @ ?p1 @ '')'') ?F = Some ([?p1], False)" by (rule h1)
    show "toy_regcomp (''('' @ ''c'' @ '')'') ?F = Some ([''c''], False)" by (rule h3)
    show "?p1 \<noteq> ''-i''" by (rule ne1)
    show "?p1 \<noteq> ''+i''" by (rule ne2)
    show "NUL \<notin> set ?p1" by (simp add: NUL_def)
    show "NUL \<notin> set ''c''" by (simp add: NUL_def)
  qed simp_all
  then show ?thesis by (simp add: REG_EXTENDED_def REG_NOSUB_def)
qed

subsection \<open>compileUnoptimisedREs\<close>

lemma c_token_c_str: "c_token t \<Longrightarrow> SBuf_c_str t = t \<and> t \<noteq> []"
  by (simp add: c_token_def SBuf_c_str_id)

lemma flags_at_prefix: "flags_at (pre @ sl) (length pre) = foldl toggle (REG_EXTENDED OR REG_NOSUB) pre"
  by (simp add: flags_at_def)

lemma unoptimised_loop_positions:
  assumes "\<forall>p\<in>set sl. c_token p"
  shows "unoptimised_loop rc (foldl toggle (REG_EXTENDED OR REG_NOSUB) pre) curlist lg sl =
           (curlist @ concat (map (entry_at rc (pre @ sl)) [length pre..<length pre + length sl]),
            lg @ concat (map (diag_at rc (pre @ sl)) [length pre..<length pre + length sl]))"
  using assms
proof (induction sl arbitrary: pre curlist lg)
  case Nil
  then show ?case by simp
next
  case (Cons i sl)
  let ?f = "foldl toggle (REG_EXTENDED OR REG_NOSUB) pre"
  let ?n = "length pre"
  from Cons.prems have tok: "SBuf_c_str i = i" "i \<noteq> []" and rest: "\<forall>p\<in>set sl. c_token p"
    by (simp_all add: c_token_c_str)
  have range: "[?n..<?n + length (i # sl)] = ?n # [length (pre @ [i])..<length (pre @ [i]) + length sl]"
  proof -
    have "[?n..<?n + Suc (length sl)] = ?n # [Suc ?n..<?n + Suc (length sl)]"
      by (rule upt_conv_Cons) simp
    then show ?thesis by simp
  qed
  have here: "(pre @ i # sl) ! ?n = i" "flags_at (pre @ i # sl) ?n = ?f"
    by (simp_all add: flags_at_prefix)
  define E where "E = concat (map (entry_at rc (pre @ i # sl))
      [length (pre @ [i])..<length (pre @ [i]) + length sl])"
  define D where "D = concat (map (diag_at rc (pre @ i # sl))
      [length (pre @ [i])..<length (pre @ [i]) + length sl])"
  have IH: "unoptimised_loop rc (toggle ?f i) cur lg' sl = (cur @ E, lg' @ D)" for cur lg'
    using Cons.IH [OF rest, of "pre @ [i]" cur lg'] by (simp add: E_def D_def)
  have e_here: "entry_at rc (pre @ i # sl) ?n =
      (if i = ''-i'' \<or> i = ''+i'' then []
       else (case rc i ?f of None \<Rightarrow> []
             | Some h \<Rightarrow> [\<lparr>flags = ?f, pattern = i, regex = h\<rparr>]))"
    unfolding entry_at_def here ..
  have d_here: "diag_at rc (pre @ i # sl) ?n =
      (if i = ''-i'' \<or> i = ''+i'' then []
       else (case rc i ?f of None \<Rightarrow> [InvalidRegex i, SkippingCompileFailed i]
             | Some h \<Rightarrow> []))"
    unfolding diag_at_def here ..
  have goal: "?case = (unoptimised_loop rc ?f curlist lg (i # sl) =
      (curlist @ entry_at rc (pre @ i # sl) ?n @ E,
       lg @ diag_at rc (pre @ i # sl) ?n @ D))"
    unfolding range E_def D_def by simp
  show ?case
    unfolding goal e_here d_here
  proof (cases "i = ''-i'' \<or> i = ''+i''")
    case True
    then show "unoptimised_loop rc ?f curlist lg (i # sl) =
      (curlist @ (if i = ''-i'' \<or> i = ''+i'' then []
         else (case rc i ?f of None \<Rightarrow> []
               | Some h \<Rightarrow> [\<lparr>flags = ?f, pattern = i, regex = h\<rparr>])) @ E,
       lg @ (if i = ''-i'' \<or> i = ''+i'' then []
         else (case rc i ?f of None \<Rightarrow> [InvalidRegex i, SkippingCompileFailed i]
               | Some h \<Rightarrow> [])) @ D)"
      using IH [of curlist lg] by (auto simp: toggle_def)
  next
    case False
    then have t: "toggle ?f i = ?f" by (simp add: toggle_def)
    from False tok IH [unfolded t]
    show "unoptimised_loop rc ?f curlist lg (i # sl) =
      (curlist @ (if i = ''-i'' \<or> i = ''+i'' then []
         else (case rc i ?f of None \<Rightarrow> []
               | Some h \<Rightarrow> [\<lparr>flags = ?f, pattern = i, regex = h\<rparr>])) @ E,
       lg @ (if i = ''-i'' \<or> i = ''+i'' then []
         else (case rc i ?f of None \<Rightarrow> [InvalidRegex i, SkippingCompileFailed i]
               | Some h \<Rightarrow> [])) @ D)"
      by (cases "rc i ?f") (simp_all add: compileRE_def)
  qed
qed

text \<open>
  C9. For a sequence of tokens as the loader builds them (C strings, none empty), the
  FallbackCompiler returns no failure: it leaves the destination list with one entry
  appended, in order, for each position that holds a pattern text the engine compiles
  under the flags in force there (the start flags with the flag tokens before the
  position applied), and it logs the two messages for each pattern text the engine
  rejects, which is the only thing skipped.
\<close>

theorem fallback_compiles_each:
  assumes "\<forall>p\<in>set sl. c_token p"
  shows "compileUnoptimisedREs rc curlist sl =
           (curlist @ concat (map (entry_at rc sl) [0..<length sl]),
            concat (map (diag_at rc sl) [0..<length sl]))"
  using unoptimised_loop_positions [OF assms, of rc "[]" curlist "[]"]
  by (simp add: compileUnoptimisedREs_def)

theorem fallback_compiles_each_witness:
  "list_all c_token [''abc'', ''-i'', ''a(b'', ''def'', ''+i'', ''ghi''] \<and>
   compileUnoptimisedREs toy_regcomp [\<lparr>flags = 9, pattern = ''(x)'', regex = ([''x''], False)\<rparr>]
       [''abc'', ''-i'', ''a(b'', ''def'', ''+i'', ''ghi'']
     = ([\<lparr>flags = 9, pattern = ''(x)'', regex = ([''x''], False)\<rparr>,
         \<lparr>flags = 9, pattern = ''abc'', regex = ([''abc''], False)\<rparr>,
         \<lparr>flags = 11, pattern = ''def'', regex = ([''def''], True)\<rparr>,
         \<lparr>flags = 9, pattern = ''ghi'', regex = ([''ghi''], False)\<rparr>],
        [InvalidRegex ''a(b'', SkippingCompileFailed ''a(b''])"
proof -
  let ?sl = "[''abc'', ''-i'', ''a(b'', ''def'', ''+i'', ''ghi'']"
  have tokens: "\<forall>p\<in>set ?sl. c_token p" by (simp add: c_token_def NUL_def)
  have "concat (map (entry_at toy_regcomp ?sl) [0..<length ?sl])
      = [\<lparr>flags = 9, pattern = ''abc'', regex = ([''abc''], False)\<rparr>,
         \<lparr>flags = 11, pattern = ''def'', regex = ([''def''], True)\<rparr>,
         \<lparr>flags = 9, pattern = ''ghi'', regex = ([''ghi''], False)\<rparr>]"
    by (simp add: entry_at_def flags_at_def toggle_def toy_eval REG_EXTENDED_def REG_ICASE_def
        REG_NOSUB_def upt_rec)
  moreover have "concat (map (diag_at toy_regcomp ?sl) [0..<length ?sl])
      = [InvalidRegex ''a(b'', SkippingCompileFailed ''a(b'']"
    by (simp add: diag_at_def flags_at_def toggle_def toy_eval REG_EXTENDED_def REG_ICASE_def
        REG_NOSUB_def upt_rec)
  ultimately show ?thesis
    using fallback_compiles_each [OF tokens, of toy_regcomp
        "[\<lparr>flags = 9, pattern = ''(x)'', regex = ([''x''], False)\<rparr>]"] tokens
    by (simp add: list_all_iff)
qed

subsection \<open>parse: trimming and dropping\<close>

lemma buffer_tokens_filter:
  "buffer_tokens B sl lg ts =
     (sl @ filter (\<lambda>c. \<not> length c > B - 1) (map (\<lambda>t. fst (removeUnnecessaryWildcards t)) ts),
      lg @ concat (map (\<lambda>t. snd (removeUnnecessaryWildcards t) @
                          (if length (fst (removeUnnecessaryWildcards t)) > B - 1
                           then [SkippingTooLarge (fst (removeUnnecessaryWildcards t))] else [])) ts))"
proof (induction ts arbitrary: sl lg)
  case Nil
  then show ?case by simp
next
  case (Cons t ts)
  obtain clean lg' where r: "removeUnnecessaryWildcards t = (clean, lg')"
    by (cases "removeUnnecessaryWildcards t")
  show ?case
    by (cases "length clean > B - 1") (simp_all add: r Cons.IH)
qed

text \<open>
  C8. parse hands to the Optimizer, and after its failure to the FallbackCompiler, the
  sequence \<open>sl\<close> of the trimmed tokens that are not longer than \<open>BUFSIZ - 1\<close>, as they
  are and in their order; the log starts with the warnings of the trimmer and, for each
  trimmed token that is longer, the message that it is skipped. (A token and its
  trimmed form are C strings, so the length is \<open>strlen\<close>.)
\<close>

theorem parse_drops_oversized:
  assumes "0 < B"
  shows "parse B junk rc data ts =
           (let sl = filter (\<lambda>c. \<not> length c > B - 1)
                       (map (\<lambda>t. fst (removeUnnecessaryWildcards t)) ts);
                lg = concat (map (\<lambda>t. snd (removeUnnecessaryWildcards t) @
                          (if length (fst (removeUnnecessaryWildcards t)) > B - 1
                           then [SkippingTooLarge (fst (removeUnnecessaryWildcards t))] else [])) ts)
            in case compileOptimisedREs B junk rc data sl of
                 None \<Rightarrow> None
               | Some (ret, data', lg1) \<Rightarrow>
                   if ret = 0
                   then Some (fst (compileUnoptimisedREs rc data' sl),
                              lg @ lg1 @ [OptimisationFailed] @ snd (compileUnoptimisedREs rc data' sl))
                   else Some (data', lg @ lg1))"
  by (simp add: buffer_tokens_filter parse_def Let_def split: prod.splits option.splits)

theorem parse_drops_oversized_witness:
  "(0::nat) < 16 \<and>
   parse 16 (\<lambda>_. CHR ''x'') toy_regcomp [] [''^.*abc'', ''abcdefghijklmnopqrst'', ''-i'', ''.*.*def'']
     = Some ([\<lparr>flags = 9, pattern = ''(abc)'', regex = ([''abc''], False)\<rparr>,
              \<lparr>flags = 11, pattern = ''(def)'', regex = ([''def''], True)\<rparr>],
             [UnnecessaryWildcards ''^.*abc'' ''abc'', SkippingTooLarge ''abcdefghijklmnopqrst'',
              UnnecessaryWildcards ''.*.*def'' ''def''])"
proof -
  have pos: "(0::nat) < 16" by simp
  have t1: "removeUnnecessaryWildcards ''^.*abc'' = (''abc'', [UnnecessaryWildcards ''^.*abc'' ''abc''])"
    by (simp add: removeUnnecessaryWildcards_def Let_def)
  have t2: "removeUnnecessaryWildcards ''abcdefghijklmnopqrst'' = (''abcdefghijklmnopqrst'', [])"
    by (simp add: removeUnnecessaryWildcards_def Let_def)
  have t3: "removeUnnecessaryWildcards ''-i'' = (''-i'', [])"
    by (simp add: removeUnnecessaryWildcards_def Let_def)
  have t4: "removeUnnecessaryWildcards ''.*.*def'' = (''def'', [UnnecessaryWildcards ''.*.*def'' ''def''])"
    by (simp add: removeUnnecessaryWildcards_def Let_def)
  have opt: "compileOptimisedREs 16 (\<lambda>_. CHR ''x'') toy_regcomp [] [''abc'', ''-i'', ''def'']
      = Some (1, [\<lparr>flags = 9, pattern = ''(abc)'', regex = ([''abc''], False)\<rparr>,
                  \<lparr>flags = 11, pattern = ''(def)'', regex = ([''def''], True)\<rparr>], [])"
    by (simp add: compileOptimisedREs_acc acc_eval toy_eval)
  show ?thesis
    using parse_drops_oversized [OF pos, of "\<lambda>_. CHR ''x''" toy_regcomp "[]"
        "[''^.*abc'', ''abcdefghijklmnopqrst'', ''-i'', ''.*.*def'']"]
    by (simp add: t1 t2 t3 t4 opt)
qed

subsection \<open>The Optimizer against the FallbackCompiler\<close>

lemma match_fst:
  "fst (match rx l word) = (\<exists>w. word = Some w \<and> (\<exists>i\<in>set l. RegexPattern_match rx i w))"
  by (cases word) (simp_all add: match_def match_walk_fst)

lemma unoptimised_loop_fst_append:
  assumes "\<forall>p\<in>set sl. c_token p"
  shows "fst (unoptimised_loop rc f cur lg sl) = cur @ fst (unoptimised_loop rc f [] [] sl)"
  using assms
proof (induction sl arbitrary: f cur lg)
  case Nil
  then show ?case by simp
next
  case (Cons i sl)
  then have tok: "SBuf_c_str i = i" "i \<noteq> []" and rest: "\<forall>p\<in>set sl. c_token p"
    by (simp_all add: c_token_c_str)
  note IH = Cons.IH [OF rest]
  show ?case
  proof (cases "i = ''-i'' \<or> i = ''+i''")
    case True
    then show ?thesis using IH [of _ cur lg] by auto
  next
    case False
    show ?thesis
    proof (cases "rc i f")
      case None
      with False tok show ?thesis
        using IH [of f cur "lg @ [InvalidRegex i, SkippingCompileFailed i]"]
          IH [of f "[]" "[InvalidRegex i, SkippingCompileFailed i]"]
        by (simp add: compileRE_def)
    next
      case (Some h)
      with False tok show ?thesis
        using IH [of f "cur @ [\<lparr>flags = f, pattern = i, regex = h\<rparr>]" lg]
          IH [of f "[\<lparr>flags = f, pattern = i, regex = h\<rparr>]" "[]"]
        by (simp add: compileRE_def)
    qed
  qed
qed

lemma flag_ok_on: "flag_ok f \<Longrightarrow> flag_ok (f OR REG_ICASE)"
  by (auto simp: flag_ok_def REG_EXTENDED_def REG_NOSUB_def REG_ICASE_def)

lemma flag_ok_off: "flag_ok f \<Longrightarrow> flag_ok (f AND NOT REG_ICASE)"
  by (auto simp: flag_ok_def REG_EXTENDED_def REG_NOSUB_def REG_ICASE_def)

lemma flag_ok_on_again: "flag_ok f \<Longrightarrow> (f AND REG_ICASE) \<noteq> 0 \<Longrightarrow> f OR REG_ICASE = f"
  by (auto simp: flag_ok_def REG_EXTENDED_def REG_NOSUB_def REG_ICASE_def)

lemma flag_ok_off_again: "flag_ok f \<Longrightarrow> (f AND REG_ICASE) = 0 \<Longrightarrow> f AND NOT REG_ICASE = f"
  by (auto simp: flag_ok_def REG_EXTENDED_def REG_NOSUB_def REG_ICASE_def)

lemma NUL_foldl_alt_append:
  "NUL \<notin> set s \<Longrightarrow> \<forall>p\<in>set ps. NUL \<notin> set p \<Longrightarrow> NUL \<notin> set (foldl alt_append s ps)"
  by (induction ps arbitrary: s) (simp_all add: NUL_alt_append)

lemma NUL_alternation: "\<forall>p\<in>set ps. NUL \<notin> set p \<Longrightarrow> NUL \<notin> set (alternation ps)"
  by (simp add: alternation_def NUL_foldl_alt_append)

lemma acc_flush_entries:
  assumes sound: "alternation_sound rc rx P"
    and ps: "set ps \<subseteq> P" "\<forall>p\<in>set ps. NUL \<notin> set p"
    and a: "acc a = alternation ps"
    and ok: "flag_ok (a_flags a)"
    and flush: "acc_flush rc a = Next a1"
  shows "\<exists>G. a1 = a\<lparr>a_newlist := a_newlist a @ G\<rparr> \<and>
           (\<forall>w. (\<exists>i\<in>set G. RegexPattern_match rx i w) =
                 (\<exists>p\<in>set ps. \<exists>hp. rc p (a_flags a) = Some hp \<and> rx hp w))"
proof (cases "ps = []")
  case True
  with a have "acc a = []" by (simp add: alternation_def)
  with flush have "a1 = a\<lparr>a_newlist := a_newlist a @ []\<rparr>"
    by (auto simp: acc_flush_def compileRE_def SBuf_c_str_def split: if_splits)
  with True show ?thesis by (intro exI [of _ "[]"]) simp
next
  case False
  with a have ne: "acc a \<noteq> []" by (simp add: alternation_empty)
  from ps(2) a have "SBuf_c_str (acc a) = acc a"
    by (simp add: SBuf_c_str_id NUL_alternation)
  with flush ne obtain h where h: "rc (alternation ps) (a_flags a) = Some h"
    and a1: "a1 = a\<lparr>a_newlist := a_newlist a @ [\<lparr>flags = a_flags a, pattern = acc a, regex = h\<rparr>]\<rparr>"
    by (auto simp: acc_flush_def compileRE_def a split: option.splits if_splits)
  from sound ok False ps(1) h
  have "rx h w = (\<exists>p\<in>set ps. \<exists>hp. rc p (a_flags a) = Some hp \<and> rx hp w)" for w
    unfolding alternation_sound_def by blast
  with a1 show ?thesis
    by (intro exI [of _ "[\<lparr>flags = a_flags a, pattern = acc a, regex = h\<rparr>]"])
       (simp add: RegexPattern_match_def)
qed

lemma acc_flush_frame: "acc_flush rc a = Next a2 \<Longrightarrow> a_flags a2 = a_flags a \<and> acc a2 = acc a"
  by (auto simp: acc_flush_def split: prod.splits if_splits)

lemma merged_entries_match:
  fixes rc :: "string \<Rightarrow> int \<Rightarrow> 'r option"
  assumes sound: "alternation_sound rc rx P"
  shows "\<lbrakk>\<forall>p\<in>set sl. c_token p; set sl - {''-i'', ''+i''} \<subseteq> P;
          set ps \<subseteq> P; \<forall>p\<in>set ps. NUL \<notin> set p; acc a = alternation ps;
          flag_ok (a_flags a); fits B (a_flags a) (length (acc a)) sl;
          obind (acc_loop B rc a sl) (acc_flush rc) = Next a'\<rbrakk>
         \<Longrightarrow> \<exists>G. a_newlist a' = a_newlist a @ G \<and>
               (\<forall>w. (\<exists>i\<in>set G. RegexPattern_match rx i w) =
                  ((\<exists>p\<in>set ps. \<exists>hp. rc p (a_flags a) = Some hp \<and> rx hp w) \<or>
                   (\<exists>i\<in>set (fst (unoptimised_loop rc (a_flags a) [] [] sl)).
                      RegexPattern_match rx i w)))"
proof (induction sl arbitrary: a ps)
  case Nil
  from Nil.prems have "acc_flush rc a = Next a'" by simp
  from acc_flush_entries [OF sound Nil.prems(3,4,5,6) this]
  show ?case by auto
next
  case (Cons i sl)
  let ?f = "a_flags a"
  from Cons.prems(1) have tok: "c_token i" and rest: "\<forall>p\<in>set sl. c_token p" by simp_all
  from Cons.prems(2) have restP: "set sl - {''-i'', ''+i''} \<subseteq> P" by auto
  from Cons.prems(8) obtain a1 where body: "acc_body B rc a i = Next a1"
    and run: "obind (acc_loop B rc a1 sl) (acc_flush rc) = Next a'"
    by (cases "acc_body B rc a i") simp_all
  have flag_change: ?case
    if i: "i = ''-i'' \<or> i = ''+i''" and g: "g = toggle ?f i"
      and b: "obind (acc_flush rc a) (\<lambda>a. Next (a\<lparr>a_flags := g, acc := []\<rparr>)) = Next a1"
      and fit: "fits B g 0 sl" and ok: "flag_ok g"
      and un: "unoptimised_loop rc ?f [] [] (i # sl) = unoptimised_loop rc g [] [] sl"
    for g
  proof -
    from b obtain a2 where a2: "acc_flush rc a = Next a2" and a1: "a1 = a2\<lparr>a_flags := g, acc := []\<rparr>"
      by (cases "acc_flush rc a") simp_all
    from acc_flush_entries [OF sound Cons.prems(3,4,5,6) a2] obtain G1 where
      G1: "a2 = a\<lparr>a_newlist := a_newlist a @ G1\<rparr>"
        "\<forall>w. (\<exists>i\<in>set G1. RegexPattern_match rx i w) =
             (\<exists>p\<in>set ps. \<exists>hp. rc p ?f = Some hp \<and> rx hp w)"
      by blast
    have "\<exists>G. a_newlist a' = a_newlist a1 @ G \<and>
               (\<forall>w. (\<exists>i\<in>set G. RegexPattern_match rx i w) =
                  ((\<exists>p\<in>set []. \<exists>hp. rc p (a_flags a1) = Some hp \<and> rx hp w) \<or>
                   (\<exists>i\<in>set (fst (unoptimised_loop rc (a_flags a1) [] [] sl)).
                      RegexPattern_match rx i w)))"
      by (rule Cons.IH [OF rest restP _ _ _ _ _ run])
         (simp_all add: a1 alternation_def fit ok)
    then obtain G2 where G2: "a_newlist a' = a_newlist a1 @ G2"
      "\<forall>w. (\<exists>i\<in>set G2. RegexPattern_match rx i w) =
           (\<exists>i\<in>set (fst (unoptimised_loop rc g [] [] sl)). RegexPattern_match rx i w)"
      by (auto simp: a1)
    have "a_newlist a' = a_newlist a @ (G1 @ G2)"
      using G2(1) G1(1) by (simp add: a1)
    moreover have "\<forall>w. (\<exists>i\<in>set (G1 @ G2). RegexPattern_match rx i w) =
        ((\<exists>p\<in>set ps. \<exists>hp. rc p ?f = Some hp \<and> rx hp w) \<or>
         (\<exists>i\<in>set (fst (unoptimised_loop rc ?f [] [] (i # sl))). RegexPattern_match rx i w))"
      using G1(2) G2(2) unfolding un by auto
    ultimately show ?thesis by blast
  qed
  show ?case
  proof (cases "i = ''-i''")
    case True
    show ?thesis
    proof (cases "(?f AND REG_ICASE) \<noteq> 0")
      case on: True
      with True body have a1: "a1 = a" by (simp add: acc_body_def)
      have same: "?f OR REG_ICASE = ?f" by (rule flag_ok_on_again [OF Cons.prems(6) on])
      from Cons.prems(7) True on have fit: "fits B ?f (length (acc a)) sl" by (simp add: same)
      from Cons.IH [OF rest restP Cons.prems(3,4,5,6) fit run [unfolded a1]] True
      show ?thesis by (simp add: same)
    next
      case off: False
      show ?thesis
      proof (rule flag_change [of "?f OR REG_ICASE"])
        show "i = ''-i'' \<or> i = ''+i''" using True by simp
        show "?f OR REG_ICASE = toggle ?f i" using True by (simp add: toggle_def)
        show "obind (acc_flush rc a) (\<lambda>a. Next (a\<lparr>a_flags := ?f OR REG_ICASE, acc := []\<rparr>)) = Next a1"
          using body True off
          by (cases "acc_flush rc a") (auto simp: acc_body_def dest: acc_flush_frame)
        show "fits B (?f OR REG_ICASE) 0 sl" using Cons.prems(7) True off by simp
        show "flag_ok (?f OR REG_ICASE)" by (rule flag_ok_on [OF Cons.prems(6)])
        show "unoptimised_loop rc ?f [] [] (i # sl) = unoptimised_loop rc (?f OR REG_ICASE) [] [] sl"
          using True by simp
      qed
    qed
  next
    case not_minus: False
    show ?thesis
    proof (cases "i = ''+i''")
      case True
      show ?thesis
      proof (cases "(?f AND REG_ICASE) = 0")
        case off: True
        with True body have a1: "a1 = a" by (simp add: acc_body_def)
        have same: "?f AND NOT REG_ICASE = ?f" by (rule flag_ok_off_again [OF Cons.prems(6) off])
        from Cons.prems(7) True off have fit: "fits B ?f (length (acc a)) sl" by (simp add: same)
        from Cons.IH [OF rest restP Cons.prems(3,4,5,6) fit run [unfolded a1]] True
        show ?thesis by (simp add: same)
      next
        case on: False
        show ?thesis
        proof (rule flag_change [of "?f AND NOT REG_ICASE"])
          show "i = ''-i'' \<or> i = ''+i''" using True by simp
          show "?f AND NOT REG_ICASE = toggle ?f i" using True by (simp add: toggle_def)
          show "obind (acc_flush rc a) (\<lambda>a. Next (a\<lparr>a_flags := ?f AND NOT REG_ICASE, acc := []\<rparr>)) = Next a1"
            using body True on
            by (cases "acc_flush rc a") (auto simp: acc_body_def dest: acc_flush_frame)
          show "fits B (?f AND NOT REG_ICASE) 0 sl" using Cons.prems(7) True on by simp
          show "flag_ok (?f AND NOT REG_ICASE)" by (rule flag_ok_off [OF Cons.prems(6)])
          show "unoptimised_loop rc ?f [] [] (i # sl) = unoptimised_loop rc (?f AND NOT REG_ICASE) [] [] sl"
            using True by simp
        qed
      qed
    next
      case False
      from tok have i: "SBuf_c_str i = i" "i \<noteq> []" "NUL \<notin> set i"
        by (simp_all add: c_token_c_str) (simp add: c_token_def)
      from Cons.prems(7) not_minus False have room: "length i + length (acc a) + 3 < B - 1"
        and fit: "fits B ?f (length (alt_append (acc a) i)) sl"
        by (simp_all add: length_alt_append)
      from body not_minus False room
      have a1: "a1 = a\<lparr>acc := alt_append (acc a) i, a_numREs := a_numREs a + 1\<rparr>"
        by (simp add: acc_body_def)
      from Cons.prems(2) not_minus False have iP: "i \<in> P" by auto
      have "\<exists>G. a_newlist a' = a_newlist a1 @ G \<and>
               (\<forall>w. (\<exists>j\<in>set G. RegexPattern_match rx j w) =
                  ((\<exists>p\<in>set (ps @ [i]). \<exists>hp. rc p (a_flags a1) = Some hp \<and> rx hp w) \<or>
                   (\<exists>j\<in>set (fst (unoptimised_loop rc (a_flags a1) [] [] sl)).
                      RegexPattern_match rx j w)))"
        by (rule Cons.IH [OF rest restP _ _ _ _ _ run])
           (use Cons.prems(3,4,5,6) iP i fit in \<open>simp_all add: a1 alternation_snoc\<close>)
      then obtain G where G: "a_newlist a' = a_newlist a @ G"
        "\<forall>w. (\<exists>j\<in>set G. RegexPattern_match rx j w) =
           ((\<exists>p\<in>set (ps @ [i]). \<exists>hp. rc p ?f = Some hp \<and> rx hp w) \<or>
            (\<exists>j\<in>set (fst (unoptimised_loop rc ?f [] [] sl)). RegexPattern_match rx j w))"
        by (auto simp: a1)
      have un: "(\<exists>j\<in>set (fst (unoptimised_loop rc ?f [] [] (i # sl))). RegexPattern_match rx j w) =
          ((\<exists>hp. rc i ?f = Some hp \<and> rx hp w) \<or>
           (\<exists>j\<in>set (fst (unoptimised_loop rc ?f [] [] sl)). RegexPattern_match rx j w))" for w
      proof (cases "rc i ?f")
        case None
        with not_minus False i show ?thesis
          using unoptimised_loop_fst_append [OF rest, of rc ?f "[]" "[InvalidRegex i, SkippingCompileFailed i]"]
          by (simp add: compileRE_def)
      next
        case (Some h)
        with not_minus False i show ?thesis
          using unoptimised_loop_fst_append [OF rest, of rc ?f "[\<lparr>flags = ?f, pattern = i, regex = h\<rparr>]" "[]"]
          by (simp add: compileRE_def RegexPattern_match_def)
      qed
      have "\<forall>w. (\<exists>j\<in>set G. RegexPattern_match rx j w) =
          ((\<exists>p\<in>set ps. \<exists>hp. rc p ?f = Some hp \<and> rx hp w) \<or>
           (\<exists>j\<in>set (fst (unoptimised_loop rc ?f [] [] (i # sl))). RegexPattern_match rx j w))"
        unfolding un using G(2) by auto
      with G(1) show ?thesis by blast
    qed
  qed
qed

text \<open>
  C5, as the specification states it, fails. The engine of the concrete runs rejects the
  pattern text \<open>a)|(b\<close>, as POSIX engines do (the parenthesis it opens is never closed),
  so the FallbackCompiler skips it and its list matches nothing. The Optimizer wraps the
  text into \<open>(a)|(b)\<close>, which compiles and matches the word \<open>a\<close>. Joining texts with
  parentheses and bars is the design of the Optimizer; it checks no pattern alone.
\<close>

theorem merged_alternation_counterexample:
  "length ''a)|(b'' \<le> 8192 - 1 \<and>
   compileOptimisedREs 8192 (\<lambda>_. CHR ''x'') toy_regcomp [] [''a)|(b'']
     = Some (1, [\<lparr>flags = 9, pattern = ''(a)|(b)'', regex = ([''a'', ''b''], False)\<rparr>], []) \<and>
   compileUnoptimisedREs toy_regcomp [] [''a)|(b'']
     = ([], [InvalidRegex ''a)|(b'', SkippingCompileFailed ''a)|(b'']) \<and>
   fst (match toy_regexec [\<lparr>flags = 9, pattern = ''(a)|(b)'', regex = ([''a'', ''b''], False)\<rparr>]
          (Some ''a''))
     \<noteq> fst (match toy_regexec [] (Some ''a''))"
proof -
  have "compileOptimisedREs 8192 (\<lambda>_. CHR ''x'') toy_regcomp [] [''a)|(b'']
     = Some (1, [\<lparr>flags = 9, pattern = ''(a)|(b)'', regex = ([''a'', ''b''], False)\<rparr>], [])"
    by (simp add: compileOptimisedREs_acc acc_eval toy_eval)
  moreover have "compileUnoptimisedREs toy_regcomp [] [''a)|(b'']
     = ([], [InvalidRegex ''a)|(b'', SkippingCompileFailed ''a)|(b''])"
    by (simp add: compileUnoptimisedREs_def acc_eval toy_eval)
  moreover have "fst (match toy_regexec
      [\<lparr>flags = 9, pattern = ''(a)|(b)'', regex = ([''a'', ''b''], False)\<rparr>] (Some ''a''))"
    by (simp add: match_def RegexPattern_match_def toy_eval)
  moreover have "\<not> fst (match toy_regexec [] (Some ''a''))"
    by (simp add: match_def)
  ultimately show ?thesis by simp
qed

text \<open>
  C5, amended. Let the tokens be non-empty C strings, let every pattern text find room
  in the accumulator when its turn comes (no round takes the capacity branch), and let
  the engine treat an alternation of these pattern texts, when it compiles, as matching
  what one of them compiled alone matches. Then, when the Optimizer returns 1, its list
  and the list of the FallbackCompiler give the same match result for every word (and
  for the null word).
\<close>

theorem optimised_matches_as_fallback:
  fixes rc :: "string \<Rightarrow> int \<Rightarrow> 'r option"
  assumes B: "0 < B"
    and tokens: "\<forall>p\<in>set sl. c_token p"
    and fit: "fits B (REG_EXTENDED OR REG_NOSUB) 0 sl"
    and sound: "alternation_sound rc rx (set sl - {''-i'', ''+i''})"
    and opt: "compileOptimisedREs B junk rc curlist sl = Some (1, l1, lg1)"
  shows "fst (match rx l1 word) = fst (match rx (fst (compileUnoptimisedREs rc curlist sl)) word)"
proof -
  from opt have "acc_compile B rc curlist sl = (1, l1, lg1)"
    by (simp add: compileOptimisedREs_acc [OF B])
  then obtain a' where run: "obind (acc_loop B rc acc_initial sl) (acc_flush rc) = Next a'"
    and l1: "l1 = curlist @ a_newlist a'"
    by (cases "obind (acc_loop B rc acc_initial sl) (acc_flush rc)")
       (simp_all add: acc_compile_def)
  have "\<exists>G. a_newlist a' = a_newlist (acc_initial :: 'r acc_state) @ G \<and>
      (\<forall>w. (\<exists>i\<in>set G. RegexPattern_match rx i w) =
         ((\<exists>p\<in>set []. \<exists>hp. rc p (a_flags (acc_initial :: 'r acc_state)) = Some hp \<and> rx hp w) \<or>
          (\<exists>i\<in>set (fst (unoptimised_loop rc (a_flags (acc_initial :: 'r acc_state)) [] [] sl)).
             RegexPattern_match rx i w)))"
    by (rule merged_entries_match [OF sound tokens _ _ _ _ _ _ run])
       (use fit in \<open>simp_all add: acc_initial_def alternation_def flag_ok_def\<close>)
  then have new: "(\<exists>i\<in>set (a_newlist a'). RegexPattern_match rx i w) =
      (\<exists>i\<in>set (fst (unoptimised_loop rc (REG_EXTENDED OR REG_NOSUB) [] [] sl)).
         RegexPattern_match rx i w)" for w
    by (auto simp: acc_initial_def)
  have l2: "fst (compileUnoptimisedREs rc curlist sl)
      = curlist @ fst (unoptimised_loop rc (REG_EXTENDED OR REG_NOSUB) [] [] sl)"
    unfolding compileUnoptimisedREs_def by (rule unoptimised_loop_fst_append [OF tokens])
  have "(\<exists>i\<in>set (curlist @ a_newlist a'). RegexPattern_match rx i w) =
      (\<exists>i\<in>set (curlist @ fst (unoptimised_loop rc (REG_EXTENDED OR REG_NOSUB) [] [] sl)).
         RegexPattern_match rx i w)" for w
    using new [of w] by (simp add: bex_Un)
  then show ?thesis
    unfolding match_fst l1 l2 by simp
qed

theorem optimised_matches_as_fallback_witness:
  "fits 32 (REG_EXTENDED OR REG_NOSUB) 0 [''abc'', ''-i'', ''def'', ''ghi''] \<and>
   list_all c_token [''abc'', ''-i'', ''def'', ''ghi''] \<and>
   alternation_sound toy_regcomp toy_regexec (set [''abc'', ''-i'', ''def'', ''ghi''] - {''-i'', ''+i''}) \<and>
   compileOptimisedREs 32 (\<lambda>_. CHR ''x'') toy_regcomp [] [''abc'', ''-i'', ''def'', ''ghi'']
     = Some (1, [\<lparr>flags = 9, pattern = ''(abc)'', regex = ([''abc''], False)\<rparr>,
                 \<lparr>flags = 11, pattern = ''(def)|(ghi)'', regex = ([''def'', ''ghi''], True)\<rparr>], []) \<and>
   fst (match toy_regexec
          [\<lparr>flags = 9, pattern = ''(abc)'', regex = ([''abc''], False)\<rparr>,
           \<lparr>flags = 11, pattern = ''(def)|(ghi)'', regex = ([''def'', ''ghi''], True)\<rparr>]
          (Some ''xxGHIxx'')) \<and>
   fst (match toy_regexec
          (fst (compileUnoptimisedREs toy_regcomp [] [''abc'', ''-i'', ''def'', ''ghi'']))
          (Some ''xxGHIxx''))"
proof -
  let ?sl = "[''abc'', ''-i'', ''def'', ''ghi'']"
  let ?l1 = "[\<lparr>flags = 9, pattern = ''(abc)'', regex = ([''abc''], False)\<rparr>,
              \<lparr>flags = 11, pattern = ''(def)|(ghi)'', regex = ([''def'', ''ghi''], True)\<rparr>]"
  have pos: "(0::nat) < 32" by simp
  have tokens: "\<forall>p\<in>set ?sl. c_token p" by (simp add: c_token_def NUL_def)
  have fit: "fits 32 (REG_EXTENDED OR REG_NOSUB) 0 ?sl"
    by (simp add: REG_EXTENDED_def REG_NOSUB_def REG_ICASE_def)
  have sound: "alternation_sound toy_regcomp toy_regexec (set ?sl - {''-i'', ''+i''})"
    by (rule toy_alternation_sound) (auto simp: literal_char_def)
  have opt: "compileOptimisedREs 32 (\<lambda>_. CHR ''x'') toy_regcomp [] ?sl = Some (1, ?l1, [])"
    by (simp add: compileOptimisedREs_acc acc_eval toy_eval)
  have hit: "fst (match toy_regexec ?l1 (Some ''xxGHIxx''))"
    by (simp add: match_def RegexPattern_match_def toy_eval)
  from optimised_matches_as_fallback [OF pos tokens fit sound opt, of "Some ''xxGHIxx''"] hit
  have "fst (match toy_regexec (fst (compileUnoptimisedREs toy_regcomp [] ?sl)) (Some ''xxGHIxx''))"
    by simp
  with fit tokens sound opt hit show ?thesis by (simp add: list_all_iff)
qed

subsection \<open>What parse maintains\<close>

text \<open>
  The hypotheses used above hold of what parse builds: its token sequence consists of
  non-empty C strings when the tokenizer's tokens are C strings, and every entry it adds
  carries one of the two flag sets.
\<close>

lemma skip_wildcards_subset: "set (skip_wildcards s) \<subseteq> set s"
  by (induction s rule: skip_wildcards.induct) auto

lemma trimmed_c_token:
  assumes "NUL \<notin> set t"
  shows "c_token (fst (removeUnnecessaryWildcards t))"
proof -
  let ?s = "if take 3 t = ''^.*'' then drop 3 t else t"
  have "set ?s \<subseteq> set t" by (auto dest: in_set_dropD)
  with skip_wildcards_subset [of ?s] assms have "NUL \<notin> set (skip_wildcards ?s)" by blast
  then show ?thesis
    unfolding trimmer_result c_token_def by (simp add: NUL_def)
qed

lemma buffered_tokens_c_token:
  assumes "\<forall>t\<in>set ts. NUL \<notin> set t"
  shows "\<forall>p\<in>set (fst (buffer_tokens B [] [] ts)). c_token p"
  using assms by (auto simp: buffer_tokens_filter trimmed_c_token)

lemma compileRE_flag_ok:
  assumes "flag_ok f" and "\<forall>i\<in>set cur. flag_ok (flags i)"
  shows "\<forall>i\<in>set (fst (snd (compileRE rc cur RE f))). flag_ok (flags i)"
  using assms by (auto simp: compileRE_def split: option.splits)

lemma unoptimised_loop_flag_ok:
  assumes "flag_ok f" and "\<forall>i\<in>set cur. flag_ok (flags i)"
  shows "\<forall>i\<in>set (fst (unoptimised_loop rc f cur lg sl)). flag_ok (flags i)"
  using assms
proof (induction sl arbitrary: f cur lg)
  case Nil
  then show ?case by simp
next
  case (Cons t sl)
  obtain ok cur' lg' where c: "compileRE rc cur (Some (SBuf_c_str t)) f = (ok, cur', lg')"
    by (cases "compileRE rc cur (Some (SBuf_c_str t)) f")
  with compileRE_flag_ok [OF Cons.prems, of rc "Some (SBuf_c_str t)"]
  have cur': "\<forall>i\<in>set cur'. flag_ok (flags i)" by simp
  show ?case
    using Cons.IH [OF flag_ok_on [OF Cons.prems(1)] Cons.prems(2)]
      Cons.IH [OF flag_ok_off [OF Cons.prems(1)] Cons.prems(2)]
      Cons.IH [OF Cons.prems(1) cur']
    by (simp add: c)
qed

lemma acc_flush_flag_ok:
  assumes "acc_flush rc a = Next a1" and "flag_ok (a_flags a)"
    and "\<forall>i\<in>set (a_newlist a). flag_ok (flags i)"
  shows "a_flags a1 = a_flags a \<and> (\<forall>i\<in>set (a_newlist a1). flag_ok (flags i))"
proof -
  obtain ok nl lg where c: "compileRE rc (a_newlist a) (Some (SBuf_c_str (acc a))) (a_flags a) = (ok, nl, lg)"
    by (cases "compileRE rc (a_newlist a) (Some (SBuf_c_str (acc a))) (a_flags a)")
  with compileRE_flag_ok [OF assms(2,3), of rc "Some (SBuf_c_str (acc a))"]
  have "\<forall>i\<in>set nl. flag_ok (flags i)" by simp
  with assms(1) c show ?thesis by (auto simp: acc_flush_def split: if_splits)
qed

lemma acc_body_flag_ok:
  assumes "acc_body B rc a t = Next a1" and "flag_ok (a_flags a)"
    and "\<forall>i\<in>set (a_newlist a). flag_ok (flags i)"
  shows "flag_ok (a_flags a1) \<and> (\<forall>i\<in>set (a_newlist a1). flag_ok (flags i))"
proof (cases "acc_flush rc a")
  case (Next a2)
  from acc_flush_flag_ok [OF Next assms(2,3)] assms flag_ok_on [OF assms(2)] flag_ok_off [OF assms(2)]
  show ?thesis
    by (auto simp: acc_body_def Next split: if_splits)
next
  case OutOfBounds
  with assms show ?thesis by (auto simp: acc_body_def split: if_splits)
next
  case (Return0 lg)
  with assms show ?thesis by (auto simp: acc_body_def split: if_splits)
qed

lemma acc_loop_flag_ok:
  assumes "acc_loop B rc a sl = Next a1" and "flag_ok (a_flags a)"
    and "\<forall>i\<in>set (a_newlist a). flag_ok (flags i)"
  shows "flag_ok (a_flags a1) \<and> (\<forall>i\<in>set (a_newlist a1). flag_ok (flags i))"
  using assms
proof (induction sl arbitrary: a)
  case Nil
  then show ?case by simp
next
  case (Cons t sl)
  from Cons.prems(1) obtain a2 where b: "acc_body B rc a t = Next a2"
    and l: "acc_loop B rc a2 sl = Next a1"
    by (cases "acc_body B rc a t") simp_all
  from acc_body_flag_ok [OF b Cons.prems(2,3)] Cons.IH [OF l] show ?case by blast
qed

lemma compileOptimisedREs_flag_ok:
  assumes "0 < B" and "compileOptimisedREs B junk rc data sl = Some (ret, data', lg)"
    and "\<forall>i\<in>set data. flag_ok (flags i)"
  shows "\<forall>i\<in>set data'. flag_ok (flags i)"
proof (cases "obind (acc_loop B rc acc_initial sl) (acc_flush rc)")
  case (Next a1)
  then obtain a0 where l: "acc_loop B rc acc_initial sl = Next a0" and f: "acc_flush rc a0 = Next a1"
    by (cases "acc_loop B rc acc_initial sl") simp_all
  have "flag_ok (a_flags a0) \<and> (\<forall>i\<in>set (a_newlist a0). flag_ok (flags i))"
    by (rule acc_loop_flag_ok [OF l]) (simp_all add: acc_initial_def flag_ok_def)
  with acc_flush_flag_ok [OF f] have "\<forall>i\<in>set (a_newlist a1). flag_ok (flags i)" by blast
  with assms Next show ?thesis
    by (auto simp: compileOptimisedREs_acc acc_compile_def)
next
  case OutOfBounds
  with assms show ?thesis by (auto simp: compileOptimisedREs_acc acc_compile_def)
next
  case (Return0 lg')
  with assms show ?thesis by (auto simp: compileOptimisedREs_acc acc_compile_def)
qed

lemma parse_flag_ok:
  assumes "0 < B" and "parse B junk rc data ts = Some (data', lg)"
    and "\<forall>i\<in>set data. flag_ok (flags i)"
  shows "\<forall>i\<in>set data'. flag_ok (flags i)"
proof -
  obtain sl lg0 where b: "buffer_tokens B [] [] ts = (sl, lg0)"
    by (cases "buffer_tokens B [] [] ts")
  with assms(2) obtain ret d1 lg1 where o: "compileOptimisedREs B junk rc data sl = Some (ret, d1, lg1)"
    by (auto simp: parse_def split: option.splits)
  from compileOptimisedREs_flag_ok [OF assms(1) o assms(3)]
  have d1: "\<forall>i\<in>set d1. flag_ok (flags i)" .
  have "flag_ok (REG_EXTENDED OR REG_NOSUB)" by (simp add: flag_ok_def)
  from unoptimised_loop_flag_ok [OF this d1, of rc "[]" sl]
  have "\<forall>i\<in>set (fst (compileUnoptimisedREs rc d1 sl)). flag_ok (flags i)"
    by (simp add: compileUnoptimisedREs_def)
  with assms(2) b o d1 show ?thesis
    by (auto simp: parse_def split: if_splits prod.splits)
qed

subsection \<open>More on the two branches for a pattern text\<close>

text \<open>
  What a round of the loop does with a pattern text \<open>i\<close>, in terms of the string \<open>s\<close> the
  array holds. With room, the round appends \<open>(i)\<close>, after a bar when \<open>s\<close> is not empty,
  and compiles nothing. Without room, and when \<open>s\<close> compiles, the round leaves the entry
  of \<open>s\<close> in \<open>newlist\<close> and the array empty: \<open>i\<close> is not in it.
\<close>

lemma loop_body_pattern_text:
  fixes rc :: "string \<Rightarrow> int \<Rightarrow> 'r option"
  assumes h: "holds B st s" and i: "i \<noteq> ''-i''" "i \<noteq> ''+i''"
  shows "length i + largeREindex st + 3 < B - 1 \<Longrightarrow>
           \<exists>st'. loop_body B rc st i = Next st' \<and> holds B st' (alt_append s i) \<and>
                 newlist st' = newlist st \<and> cur_flags st' = cur_flags st"
    and "\<not> length i + largeREindex st + 3 < B - 1 \<Longrightarrow>
           compileRE rc (newlist st) (Some (SBuf_c_str s)) (cur_flags st) = (True, nl, lg) \<Longrightarrow>
           \<exists>st'. loop_body B rc st i = Next st' \<and> holds B st' [] \<and>
                 newlist st' = nl \<and> cur_flags st' = cur_flags st"
proof -
  define a :: "'r acc_state" where
    "a = \<lparr>a_newlist = newlist st, a_numREs = numREs st, a_flags = cur_flags st, acc = s\<rparr>"
  from h have abs: "abstracts B st a" and n: "largeREindex st = length s"
    by (simp_all add: abstracts_def a_def holds_def)
  note rel = body_refines [OF abs, of rc i]
  {
    assume room: "length i + largeREindex st + 3 < B - 1"
    with i n have "acc_body B rc a i = Next (a\<lparr>acc := alt_append s i, a_numREs := a_numREs a + 1\<rparr>)"
      by (simp add: acc_body_def a_def)
    with rel show "\<exists>st'. loop_body B rc st i = Next st' \<and> holds B st' (alt_append s i) \<and>
        newlist st' = newlist st \<and> cur_flags st' = cur_flags st"
      by (cases "loop_body B rc st i") (simp_all add: abstracts_def a_def)
  }
  {
    assume full: "\<not> length i + largeREindex st + 3 < B - 1"
      and c: "compileRE rc (newlist st) (Some (SBuf_c_str s)) (cur_flags st) = (True, nl, lg)"
    with i n have "acc_body B rc a i = Next (a\<lparr>a_newlist := nl, acc := []\<rparr>)"
      by (simp add: acc_body_def acc_flush_def a_def)
    with rel show "\<exists>st'. loop_body B rc st i = Next st' \<and> holds B st' [] \<and>
        newlist st' = nl \<and> cur_flags st' = cur_flags st"
      by (cases "loop_body B rc st i") (simp_all add: abstracts_def a_def)
  }
qed

text \<open>
  The effect on matching of the pattern lost above: the word \<open>b\<close> does not match the list
  of the Optimizer, and matches the list the FallbackCompiler builds from the same tokens.
\<close>

lemma capacity_flush_changes_match:
  "fst (match toy_regexec
          [\<lparr>flags = 9, pattern = ''('' @ replicate 8187 (CHR ''a'') @ '')'',
              regex = ([replicate 8187 (CHR ''a'')], False)\<rparr>,
           \<lparr>flags = 9, pattern = ''(c)'', regex = ([''c''], False)\<rparr>] (Some ''b'')) = False \<and>
   fst (match toy_regexec
          (fst (compileUnoptimisedREs toy_regcomp [] [replicate 8187 (CHR ''a''), ''b'', ''c'']))
          (Some ''b'')) = True"
proof -
  let ?p1 = "replicate 8187 (CHR ''a'')"
  have no: "?p1 \<noteq> s" if "length s < 8187" for s :: string
  proof
    assume "?p1 = s"
    then have "length ?p1 = length s" by (rule arg_cong)
    with that show False by simp
  qed
  have "\<not> occurs ?p1 ''b''"
    using no [of "''b''"] no [of "[]"] by (simp add: eq_commute)
  then have first: "\<not> fst (match toy_regexec
          [\<lparr>flags = 9, pattern = ''('' @ ?p1 @ '')'', regex = ([?p1], False)\<rparr>,
           \<lparr>flags = 9, pattern = ''(c)'', regex = ([''c''], False)\<rparr>] (Some ''b''))"
    by (simp add: match_def RegexPattern_match_def toy_regexec_def)
  have "\<lparr>flags = 9, pattern = ''b'', regex = ([''b''], False)\<rparr>
      \<in> set (concat (map (entry_at toy_regcomp [?p1, ''b'', ''c'']) [0..<length [?p1, ''b'', ''c'']]))"
    using no [of "''-i''"] no [of "''+i''"]
    by (simp add: entry_at_def flags_at_def toggle_def toy_eval REG_EXTENDED_def REG_ICASE_def
        REG_NOSUB_def upt_rec)
  moreover have "\<forall>p\<in>set [?p1, ''b'', ''c'']. c_token p"
    by (simp add: c_token_def NUL_def)
  ultimately have "\<lparr>flags = 9, pattern = ''b'', regex = ([''b''], False)\<rparr>
      \<in> set (fst (compileUnoptimisedREs toy_regcomp [] [?p1, ''b'', ''c'']))"
    using unoptimised_loop_positions [of "[?p1, ''b'', ''c'']" toy_regcomp "[]" "[]" "[]"]
    by (simp add: compileUnoptimisedREs_def)
  moreover have "RegexPattern_match toy_regexec \<lparr>flags = 9, pattern = ''b'', regex = ([''b''], False)\<rparr> ''b''"
    by (simp add: RegexPattern_match_def toy_regexec_def)
  ultimately have "fst (match toy_regexec
      (fst (compileUnoptimisedREs toy_regcomp [] [?p1, ''b'', ''c''])) (Some ''b''))"
    unfolding match_fst by blast
  with first show ?thesis by simp
qed

end
